theory Spec2Isabelle
  imports Main "HOL-Library.Word"
begin

unbundle bit_operations_syntax

section \<open>Byte order adapter (endian\_utils.hpp)\<close>

text \<open>
  The host byte order is the compile-time constant \<open>is_little_endian()\<close>. It differs
  between builds, so every function that depends on it takes it as its first argument
  \<open>native_le\<close>.

  \<open>byteswap\<close> is a template that selects its body by \<open>sizeof(T)\<close>; each of the four
  instances is a definition of its own. In the 16-bit instance the operands of the shifts
  are promoted to \<open>int\<close>, and the result is cast back to 16 bits.
\<close>

type_synonym byte = "8 word"

definition byteswap8 :: "8 word \<Rightarrow> 8 word" where
  "byteswap8 val = val"

definition byteswap16 :: "16 word \<Rightarrow> 16 word" where
  "byteswap16 val =
     (let v = (ucast val :: 32 word) in ucast (push_bit 8 v OR drop_bit 8 v))"

definition byteswap32 :: "32 word \<Rightarrow> 32 word" where
  "byteswap32 v =
     drop_bit 24 (v AND 0xFF000000) OR
     drop_bit 8 (v AND 0x00FF0000) OR
     push_bit 8 (v AND 0x0000FF00) OR
     push_bit 24 (v AND 0x000000FF)"

definition byteswap64 :: "64 word \<Rightarrow> 64 word" where
  "byteswap64 v =
     drop_bit 56 (v AND 0xFF00000000000000) OR
     drop_bit 40 (v AND 0x00FF000000000000) OR
     drop_bit 24 (v AND 0x0000FF0000000000) OR
     drop_bit 8 (v AND 0x000000FF00000000) OR
     push_bit 8 (v AND 0x00000000FF000000) OR
     push_bit 24 (v AND 0x0000000000FF0000) OR
     push_bit 40 (v AND 0x000000000000FF00) OR
     push_bit 56 (v AND 0x00000000000000FF)"

definition from_file_endian8 :: "bool \<Rightarrow> 8 word \<Rightarrow> bool \<Rightarrow> 8 word" where
  "from_file_endian8 native_le val file_is_little_endian =
     (if file_is_little_endian = native_le then val else byteswap8 val)"

definition from_file_endian16 :: "bool \<Rightarrow> 16 word \<Rightarrow> bool \<Rightarrow> 16 word" where
  "from_file_endian16 native_le val file_is_little_endian =
     (if file_is_little_endian = native_le then val else byteswap16 val)"

definition from_file_endian32 :: "bool \<Rightarrow> 32 word \<Rightarrow> bool \<Rightarrow> 32 word" where
  "from_file_endian32 native_le val file_is_little_endian =
     (if file_is_little_endian = native_le then val else byteswap32 val)"

definition from_file_endian64 :: "bool \<Rightarrow> 64 word \<Rightarrow> bool \<Rightarrow> 64 word" where
  "from_file_endian64 native_le val file_is_little_endian =
     (if file_is_little_endian = native_le then val else byteswap64 val)"

text \<open>
  The bytes of an integer, least significant first. This is the yardstick the byte swap
  is measured against; the code never calls it.
\<close>

definition byte_at :: "'a::len word \<Rightarrow> nat \<Rightarrow> byte" where
  "byte_at w k = ucast (drop_bit (8 * k) w)"

definition word_bytes :: "'a::len word \<Rightarrow> byte list" where
  "word_bytes w = map (byte_at w) [0..<LENGTH('a) div 8]"

section \<open>Segment classifier (pil\_common.hpp)\<close>

definition PIL_SEGMENT_TYPE_SHIFT :: nat where
  "PIL_SEGMENT_TYPE_SHIFT = 24"

definition PIL_SEGMENT_TYPE_MASK :: "32 word" where
  "PIL_SEGMENT_TYPE_MASK = 7"

definition PIL_SEGMENT_TYPE_HASH :: "32 word" where
  "PIL_SEGMENT_TYPE_HASH = 2"

definition is_pil_hash_segment :: "32 word \<Rightarrow> bool" where
  "is_pil_hash_segment p_flags \<longleftrightarrow>
     (drop_bit PIL_SEGMENT_TYPE_SHIFT p_flags AND PIL_SEGMENT_TYPE_MASK) = PIL_SEGMENT_TYPE_HASH"

section \<open>Streams and the file system\<close>

text \<open>
  A file is its sequence of bytes and the file system maps a path to the file stored there.
  An open stream is named by the path it was opened on, and every read or write goes
  through the file system as it is at that moment, so a file opened twice is seen the same
  by both streams. Creating a file always succeeds in this model (there are no directories
  and no permissions); opening a file for reading fails when the path holds no file.

  All streams of the two programs have \<open>exceptions(failbit | badbit)\<close> set, so a read that
  delivers fewer bytes than asked for, and a seek or write beyond what a file offset can
  hold, throw \<open>std::ios_base::failure\<close> (\<open>IosFailure\<close>) inside the stream call. The
  \<open>Error("Incomplete read ...")\<close> that follows the read in \<open>read_file_at\<close> and
  \<open>read_struct_at\<close> is therefore never reached and has no constructor here. File offsets
  are \<open>std::streamoff\<close>, a signed 64-bit integer; \<open>size_t\<close> is an unsigned 64-bit
  integer. Offsets and sizes are natural numbers, with the wrap-around of \<open>size_t\<close>
  arithmetic written out.
\<close>

type_synonym path = string

type_synonym filesystem = "path \<rightharpoonup> byte list"

datatype error =
    NotMdtFile path
  | FailedToOpen path
  | FailedToOpenSegment path
  | NotValidElf
  | UnknownDataEncoding
  | UnsupportedClass byte
  | IosFailure
  | IndexOutOfRange

definition contents :: "filesystem \<Rightarrow> path \<Rightarrow> byte list" where
  "contents fs p = (case fs p of None \<Rightarrow> [] | Some bs \<Rightarrow> bs)"

definition streamoff_limit :: nat where
  "streamoff_limit = 2 ^ 63"

definition size_t_range :: nat where
  "size_t_range = 2 ^ 64"

definition read_file_at :: "byte list \<Rightarrow> nat \<Rightarrow> nat \<Rightarrow> error + byte list" where
  "read_file_at file off count =
     (if off + count < streamoff_limit \<and> off + count \<le> length file
      then Inr (take count (drop off file))
      else Inl IosFailure)"

definition read_struct_at :: "byte list \<Rightarrow> nat \<Rightarrow> nat \<Rightarrow> error + byte list" where
  "read_struct_at file off sizeof_T =
     (if off + sizeof_T < streamoff_limit \<and> off + sizeof_T \<le> length file
      then Inr (take sizeof_T (drop off file))
      else Inl IosFailure)"

text \<open>Writing at an offset beyond the end of a file fills the gap with zero bytes; writing
  nothing leaves the file as it is.\<close>

definition write_at :: "byte list \<Rightarrow> nat \<Rightarrow> byte list \<Rightarrow> byte list" where
  "write_at bs off data =
     (if data = [] then bs
      else take off bs @ replicate (off - length bs) 0 @ data @ drop (off + length data) bs)"

definition write_file_at ::
  "filesystem \<Rightarrow> path \<Rightarrow> nat \<Rightarrow> byte list \<Rightarrow> (error \<times> filesystem) + filesystem" where
  "write_file_at fs file off data =
     (if off + length data < streamoff_limit
      then Inr (fs(file \<mapsto> write_at (contents fs file) off data))
      else Inl (IosFailure, fs))"

definition append_to_file ::
  "filesystem \<Rightarrow> path \<Rightarrow> byte list \<Rightarrow> (error \<times> filesystem) + filesystem" where
  "append_to_file fs file data =
     (if length (contents fs file) + length data < streamoff_limit
      then Inr (fs(file \<mapsto> contents fs file @ data))
      else Inl (IosFailure, fs))"

section \<open>Paths\<close>

text \<open>
  \<open>std::filesystem::path\<close> on a POSIX host: the file name is what follows the last
  \<open>/\<close>; the extension is the part of the file name from its last period on, and is empty
  when the file name is \<open>.\<close> or \<open>..\<close>, has no period, or has its only period in front.
  \<open>replace_extension\<close> removes the extension and appends the replacement, with a period
  in between when the replacement does not start with one.
\<close>

definition filename :: "path \<Rightarrow> string" where
  "filename p = rev (takeWhile (\<lambda>c. c \<noteq> CHR ''/'') (rev p))"

definition extension :: "path \<Rightarrow> string" where
  "extension p =
     (let f = filename p; tail = takeWhile (\<lambda>c. c \<noteq> CHR ''.'') (rev f)
      in if f = ''.'' \<or> f = ''..'' then []
         else if length tail = length f then []
         else if Suc (length tail) = length f then []
         else CHR ''.'' # rev tail)"

definition replace_extension :: "path \<Rightarrow> string \<Rightarrow> path" where
  "replace_extension p replacement =
     take (length p - length (extension p)) p
     @ (if replacement \<noteq> [] \<and> hd replacement \<noteq> CHR ''.'' then ''.'' else [])
     @ replacement"

text \<open>\<open>std::format(".b{:02d}", segment_index)\<close>: the index in decimal, padded with
  zeros on the left to two digits.\<close>

definition digit_char :: "nat \<Rightarrow> char" where
  "digit_char d = ''0123456789'' ! d"

fun decimal :: "nat \<Rightarrow> string" where
  "decimal n =
     (if n < 10 then [digit_char n] else decimal (n div 10) @ [digit_char (n mod 10)])"

definition bxx_extension :: "nat \<Rightarrow> string" where
  "bxx_extension segment_index =
     (let digits = decimal segment_index
      in ''.b'' @ replicate (2 - length digits) CHR ''0'' @ digits)"

section \<open>ELF structures (elf.h)\<close>

text \<open>
  The constants and the layouts of \<open>Elf32_Ehdr\<close>, \<open>Elf32_Phdr\<close>, \<open>Elf64_Ehdr\<close> and
  \<open>Elf64_Phdr\<close> come from the system header \<open>elf.h\<close>. A structure read with
  \<open>read_struct_at\<close> is its \<open>sizeof\<close> raw bytes (\<open>bit_cast\<close> copies them unchanged, and
  the structures have no padding); a member is the integer that the host reads from the
  member's bytes. \<open>elf_types\<close> stands for the pair of template arguments the
  implementation functions are instantiated with.
\<close>

definition EI_NIDENT :: nat where
  "EI_NIDENT = 16"

definition ELFMAG :: "byte list" where
  "ELFMAG = [0x7f, 0x45, 0x4c, 0x46]"

definition SELFMAG :: nat where
  "SELFMAG = 4"

definition EI_CLASS :: nat where
  "EI_CLASS = 4"

definition EI_DATA :: nat where
  "EI_DATA = 5"

definition ELFCLASS32 :: byte where
  "ELFCLASS32 = 1"

definition ELFCLASS64 :: byte where
  "ELFCLASS64 = 2"

definition ELFDATA2LSB :: byte where
  "ELFDATA2LSB = 1"

definition ELFDATA2MSB :: byte where
  "ELFDATA2MSB = 2"

datatype elf_types = Elf32 | Elf64

fun sizeof_Ehdr :: "elf_types \<Rightarrow> nat" where
  "sizeof_Ehdr Elf32 = 52"
| "sizeof_Ehdr Elf64 = 64"

fun sizeof_Phdr :: "elf_types \<Rightarrow> nat" where
  "sizeof_Phdr Elf32 = 32"
| "sizeof_Phdr Elf64 = 56"

definition member :: "byte list \<Rightarrow> nat \<Rightarrow> nat \<Rightarrow> byte list" where
  "member raw off n = take n (drop off raw)"

fun le_word :: "byte list \<Rightarrow> 'a::len word" where
  "le_word [] = 0"
| "le_word (b # bs) = ucast b OR push_bit 8 (le_word bs)"

definition native_word :: "bool \<Rightarrow> byte list \<Rightarrow> 'a::len word" where
  "native_word native_le bs = (if native_le then le_word bs else le_word (rev bs))"

text \<open>\<open>from_file_endian(ehdr.e_phoff, is_little_endian)\<close> and
  \<open>from_file_endian(ehdr.e_phnum, is_little_endian)\<close>, converted to \<open>size_t\<close>.\<close>

fun e_phoff :: "elf_types \<Rightarrow> bool \<Rightarrow> byte list \<Rightarrow> bool \<Rightarrow> nat" where
  "e_phoff Elf32 native_le ehdr le =
     unat (from_file_endian32 native_le (native_word native_le (member ehdr 28 4)) le)"
| "e_phoff Elf64 native_le ehdr le =
     unat (from_file_endian64 native_le (native_word native_le (member ehdr 32 8)) le)"

fun e_phnum :: "elf_types \<Rightarrow> bool \<Rightarrow> byte list \<Rightarrow> bool \<Rightarrow> nat" where
  "e_phnum Elf32 native_le ehdr le =
     unat (from_file_endian16 native_le (native_word native_le (member ehdr 44 2)) le)"
| "e_phnum Elf64 native_le ehdr le =
     unat (from_file_endian16 native_le (native_word native_le (member ehdr 56 2)) le)"

record PhdrInfo =
  offset :: nat
  filesz :: nat
  flags :: "32 word"

fun get_phdr_info :: "elf_types \<Rightarrow> bool \<Rightarrow> byte list \<Rightarrow> bool \<Rightarrow> PhdrInfo" where
  "get_phdr_info Elf32 native_le phdr le =
     \<lparr>offset = unat (from_file_endian32 native_le (native_word native_le (member phdr 4 4)) le),
      filesz = unat (from_file_endian32 native_le (native_word native_le (member phdr 16 4)) le),
      flags = from_file_endian32 native_le (native_word native_le (member phdr 24 4)) le\<rparr>"
| "get_phdr_info Elf64 native_le phdr le =
     \<lparr>offset = unat (from_file_endian64 native_le (native_word native_le (member phdr 8 8)) le),
      filesz = unat (from_file_endian64 native_le (native_word native_le (member phdr 32 8)) le),
      flags = from_file_endian32 native_le (native_word native_le (member phdr 4 4)) le\<rparr>"

section \<open>ELF parsing (pil\_common.hpp)\<close>

record ElfFormat =
  elf_class :: byte
  is_little_endian :: bool

definition detect_elf_format :: "byte list \<Rightarrow> error + ElfFormat" where
  "detect_elf_format file =
     (case read_file_at file 0 EI_NIDENT of
        Inl e \<Rightarrow> Inl e
      | Inr e_ident \<Rightarrow>
          if take SELFMAG e_ident \<noteq> ELFMAG then Inl NotValidElf
          else if e_ident ! EI_DATA \<noteq> ELFDATA2LSB \<and> e_ident ! EI_DATA \<noteq> ELFDATA2MSB
            then Inl UnknownDataEncoding
          else if e_ident ! EI_CLASS \<noteq> ELFCLASS32 \<and> e_ident ! EI_CLASS \<noteq> ELFCLASS64
            then Inl (UnsupportedClass (e_ident ! EI_CLASS))
          else Inr \<lparr>elf_class = e_ident ! EI_CLASS,
                    is_little_endian = (e_ident ! EI_DATA = ELFDATA2LSB)\<rparr>)"

definition read_elf_header :: "elf_types \<Rightarrow> byte list \<Rightarrow> error + byte list" where
  "read_elf_header lay file = read_struct_at file 0 (sizeof_Ehdr lay)"

fun read_phdr_entries ::
  "elf_types \<Rightarrow> byte list \<Rightarrow> nat \<Rightarrow> nat list \<Rightarrow> error + byte list list" where
  "read_phdr_entries lay file phoff [] = Inr []"
| "read_phdr_entries lay file phoff (i # is) =
     (case read_struct_at file ((phoff + i * sizeof_Phdr lay) mod size_t_range)
             (sizeof_Phdr lay) of
        Inl e \<Rightarrow> Inl e
      | Inr phdr \<Rightarrow>
          (case read_phdr_entries lay file phoff is of
             Inl e \<Rightarrow> Inl e
           | Inr phdrs \<Rightarrow> Inr (phdr # phdrs)))"

definition read_program_headers ::
  "elf_types \<Rightarrow> bool \<Rightarrow> byte list \<Rightarrow> byte list \<Rightarrow> bool \<Rightarrow> error + byte list list" where
  "read_program_headers lay native_le file ehdr le =
     (let phoff = e_phoff lay native_le ehdr le;
          phnum = e_phnum lay native_le ehdr le
      in read_phdr_entries lay file phoff [0..<phnum])"

text \<open>The loop of both implementation functions that writes the program headers back:
  entry \<open>i\<close> goes to \<open>phoff + i * sizeof(ElfPhdr)\<close>.\<close>

fun write_phdr_entries ::
  "elf_types \<Rightarrow> filesystem \<Rightarrow> path \<Rightarrow> nat \<Rightarrow> nat \<Rightarrow> byte list list
     \<Rightarrow> (error \<times> filesystem) + filesystem" where
  "write_phdr_entries lay fs out phoff i [] = Inr fs"
| "write_phdr_entries lay fs out phoff i (phdr # phdrs) =
     (case write_file_at fs out ((phoff + i * sizeof_Phdr lay) mod size_t_range) phdr of
        Inl e \<Rightarrow> Inl e
      | Inr fs' \<Rightarrow> write_phdr_entries lay fs' out phoff (Suc i) phdrs)"

section \<open>Splitter (pil-splitter.cpp)\<close>

text \<open>
  A failing run leaves the files it has written so far, so the result of a run is either
  the error together with the file system at the point of failure, or the file system at
  the end. In \<open>split_impl\<close> the stream \<open>mdt\<close> is the open file at \<open>mdt_path\<close>; both are
  the one argument \<open>mdt_path\<close>.
\<close>

definition write_segment_file ::
  "filesystem \<Rightarrow> path \<Rightarrow> nat \<Rightarrow> byte list \<Rightarrow> (error \<times> filesystem) + filesystem" where
  "write_segment_file fs mdt_path segment_index data =
     (let bxx_path = replace_extension mdt_path (bxx_extension segment_index);
          fs' = fs(bxx_path \<mapsto> [])
      in if length data < streamoff_limit
         then Inr (fs'(bxx_path \<mapsto> data))
         else Inl (IosFailure, fs'))"

fun split_segments ::
  "elf_types \<Rightarrow> bool \<Rightarrow> filesystem \<Rightarrow> path \<Rightarrow> path \<Rightarrow> bool \<Rightarrow> nat \<Rightarrow> byte list list
     \<Rightarrow> (error \<times> filesystem) + filesystem" where
  "split_segments lay native_le fs mbn mdt_path le i [] = Inr fs"
| "split_segments lay native_le fs mbn mdt_path le i (phdr # phdrs) =
     (let info = get_phdr_info lay native_le phdr le in
      if filesz info = 0 then split_segments lay native_le fs mbn mdt_path le (Suc i) phdrs
      else
        case read_file_at (contents fs mbn) (offset info) (filesz info) of
          Inl e \<Rightarrow> Inl (e, fs)
        | Inr segment \<Rightarrow>
            (case write_segment_file fs mdt_path i segment of
               Inl e \<Rightarrow> Inl e
             | Inr fs1 \<Rightarrow>
                 if is_pil_hash_segment (flags info) then
                   (case append_to_file fs1 mdt_path segment of
                      Inl e \<Rightarrow> Inl e
                    | Inr fs2 \<Rightarrow>
                        split_segments lay native_le fs2 mbn mdt_path le (Suc i) phdrs)
                 else split_segments lay native_le fs1 mbn mdt_path le (Suc i) phdrs))"

definition split_impl ::
  "elf_types \<Rightarrow> bool \<Rightarrow> filesystem \<Rightarrow> path \<Rightarrow> path \<Rightarrow> bool
     \<Rightarrow> (error \<times> filesystem) + filesystem" where
  "split_impl lay native_le fs mbn mdt_path le =
     (case read_elf_header lay (contents fs mbn) of
        Inl e \<Rightarrow> Inl (e, fs)
      | Inr ehdr \<Rightarrow>
     (case read_program_headers lay native_le (contents fs mbn) ehdr le of
        Inl e \<Rightarrow> Inl (e, fs)
      | Inr phdrs \<Rightarrow>
     (case write_file_at fs mdt_path 0 ehdr of
        Inl e \<Rightarrow> Inl e
      | Inr fs1 \<Rightarrow>
     (case write_phdr_entries lay fs1 mdt_path (e_phoff lay native_le ehdr le) 0 phdrs of
        Inl e \<Rightarrow> Inl e
      | Inr fs2 \<Rightarrow> split_segments lay native_le fs2 mbn mdt_path le 0 phdrs))))"

definition split ::
  "bool \<Rightarrow> filesystem \<Rightarrow> path \<Rightarrow> path \<Rightarrow> (error \<times> filesystem) + filesystem" where
  "split native_le fs mbn_path mdt_path =
     (if extension mdt_path \<noteq> ''.mdt'' then Inl (NotMdtFile mdt_path, fs)
      else case fs mbn_path of
        None \<Rightarrow> Inl (FailedToOpen mbn_path, fs)
      | Some _ \<Rightarrow>
          (let fs1 = fs(mdt_path \<mapsto> []) in
           case detect_elf_format (contents fs1 mbn_path) of
             Inl e \<Rightarrow> Inl (e, fs1)
           | Inr format \<Rightarrow>
               if elf_class format = ELFCLASS32
                 then split_impl Elf32 native_le fs1 mbn_path mdt_path (is_little_endian format)
               else if elf_class format = ELFCLASS64
                 then split_impl Elf64 native_le fs1 mbn_path mdt_path (is_little_endian format)
               else Inr fs1))"

section \<open>Squasher (pil-squasher.cpp)\<close>

text \<open>
  \<open>read_segment_data\<close> updates \<open>hash_offset\<close> through a reference; here it returns the
  new value next to the segment. \<open>phdrs[0]\<close> on an empty vector is undefined behaviour in
  C++; the model makes it the error \<open>IndexOutOfRange\<close>.
\<close>

definition read_segment_data ::
  "filesystem \<Rightarrow> path \<Rightarrow> nat \<Rightarrow> nat \<Rightarrow> bool \<Rightarrow> nat \<Rightarrow> error + (byte list \<times> nat)" where
  "read_segment_data fs mdt_path segment_index fsz is_hash_segment hash_offset =
     (if is_hash_segment then
        (case read_file_at (contents fs mdt_path) hash_offset fsz of
           Inl e \<Rightarrow> Inl e
         | Inr segment \<Rightarrow> Inr (segment, (hash_offset + fsz) mod size_t_range))
      else
        (let bxx_path = replace_extension mdt_path (bxx_extension segment_index) in
         case fs bxx_path of
           None \<Rightarrow> Inl (FailedToOpenSegment bxx_path)
         | Some bxx \<Rightarrow>
             (case read_file_at bxx 0 fsz of
                Inl e \<Rightarrow> Inl e
              | Inr segment \<Rightarrow> Inr (segment, hash_offset))))"

fun squash_segments ::
  "elf_types \<Rightarrow> bool \<Rightarrow> filesystem \<Rightarrow> path \<Rightarrow> path \<Rightarrow> bool \<Rightarrow> nat \<Rightarrow> nat \<Rightarrow> byte list list
     \<Rightarrow> (error \<times> filesystem) + (filesystem \<times> nat)" where
  "squash_segments lay native_le fs mdt_path mbn le hash_offset i [] = Inr (fs, hash_offset)"
| "squash_segments lay native_le fs mdt_path mbn le hash_offset i (phdr # phdrs) =
     (let info = get_phdr_info lay native_le phdr le in
      if filesz info = 0
        then squash_segments lay native_le fs mdt_path mbn le hash_offset (Suc i) phdrs
      else
        case read_segment_data fs mdt_path i (filesz info)
               (is_pil_hash_segment (flags info)) hash_offset of
          Inl e \<Rightarrow> Inl (e, fs)
        | Inr (segment, hash_offset') \<Rightarrow>
            (case write_file_at fs mbn (offset info) segment of
               Inl e \<Rightarrow> Inl e
             | Inr fs' \<Rightarrow>
                 squash_segments lay native_le fs' mdt_path mbn le hash_offset' (Suc i) phdrs))"

definition squash_impl ::
  "elf_types \<Rightarrow> bool \<Rightarrow> filesystem \<Rightarrow> path \<Rightarrow> path \<Rightarrow> bool
     \<Rightarrow> (error \<times> filesystem) + filesystem" where
  "squash_impl lay native_le fs mdt_path mbn le =
     (case read_elf_header lay (contents fs mdt_path) of
        Inl e \<Rightarrow> Inl (e, fs)
      | Inr ehdr \<Rightarrow>
     (case read_program_headers lay native_le (contents fs mdt_path) ehdr le of
        Inl e \<Rightarrow> Inl (e, fs)
      | Inr phdrs \<Rightarrow>
     (case write_file_at fs mbn 0 ehdr of
        Inl e \<Rightarrow> Inl e
      | Inr fs1 \<Rightarrow>
     (case write_phdr_entries lay fs1 mbn (e_phoff lay native_le ehdr le) 0 phdrs of
        Inl e \<Rightarrow> Inl e
      | Inr fs2 \<Rightarrow>
     (case phdrs of
        [] \<Rightarrow> Inl (IndexOutOfRange, fs2)
      | phdr0 # _ \<Rightarrow>
          (case squash_segments lay native_le fs2 mdt_path mbn le
                  (filesz (get_phdr_info lay native_le phdr0 le)) 0 phdrs of
             Inl e \<Rightarrow> Inl e
           | Inr (fs3, _) \<Rightarrow> Inr fs3))))))"

definition squash ::
  "bool \<Rightarrow> filesystem \<Rightarrow> path \<Rightarrow> path \<Rightarrow> (error \<times> filesystem) + filesystem" where
  "squash native_le fs mdt_path mbn_path =
     (if extension mdt_path \<noteq> ''.mdt'' then Inl (NotMdtFile mdt_path, fs)
      else case fs mdt_path of
        None \<Rightarrow> Inl (FailedToOpen mdt_path, fs)
      | Some _ \<Rightarrow>
          (let fs1 = fs(mbn_path \<mapsto> []) in
           case detect_elf_format (contents fs1 mdt_path) of
             Inl e \<Rightarrow> Inl (e, fs1)
           | Inr format \<Rightarrow>
               if elf_class format = ELFCLASS32
                 then squash_impl Elf32 native_le fs1 mdt_path mbn_path (is_little_endian format)
               else if elf_class format = ELFCLASS64
                 then squash_impl Elf64 native_le fs1 mdt_path mbn_path (is_little_endian format)
               else Inr fs1))"

section \<open>Notions used in the statements and proofs\<close>

definition digits_value :: "string \<Rightarrow> nat" where
  "digits_value s = foldl (\<lambda>a c. 10 * a + (of_char c - 48)) 0 s"

definition agrees_on :: "byte list \<Rightarrow> byte list \<Rightarrow> nat set \<Rightarrow> bool" where
  "agrees_on m out W \<longleftrightarrow> length out \<le> length m \<and> (\<forall>k\<in>W. k < length out \<and> out ! k = m ! k)"

abbreviation bxx_path :: "path \<Rightarrow> nat \<Rightarrow> path" where
  "bxx_path mdt_path i \<equiv> replace_extension mdt_path (bxx_extension i)"

definition segment_bytes :: "byte list \<Rightarrow> PhdrInfo \<Rightarrow> byte list" where
  "segment_bytes file info = take (filesz info) (drop (offset info) file)"

definition hash_stream :: "elf_types \<Rightarrow> bool \<Rightarrow> bool \<Rightarrow> byte list \<Rightarrow> byte list list \<Rightarrow> byte list" where
  "hash_stream lay native_le le file phdrs =
     concat (map (\<lambda>phdr. let info = get_phdr_info lay native_le phdr le in
                    if is_pil_hash_segment (flags info) then segment_bytes file info else [])
              phdrs)"

definition segment_region :: "PhdrInfo \<Rightarrow> nat set" where
  "segment_region info = {offset info ..< offset info + filesz info}"

definition elf_parse ::
  "bool \<Rightarrow> byte list \<Rightarrow> (elf_types \<times> bool \<times> byte list \<times> byte list list) option" where
  "elf_parse native_le file =
     (case detect_elf_format file of
        Inl e \<Rightarrow> None
      | Inr format \<Rightarrow>
          (let lay = (if elf_class format = ELFCLASS32 then Elf32 else Elf64);
               le = is_little_endian format
           in case read_elf_header lay file of
                Inl e \<Rightarrow> None
              | Inr ehdr \<Rightarrow>
                  (case read_program_headers lay native_le file ehdr le of
                     Inl e \<Rightarrow> None
                   | Inr phdrs \<Rightarrow> Some (lay, le, ehdr, phdrs))))"

definition header_region :: "elf_types \<Rightarrow> nat \<Rightarrow> nat \<Rightarrow> nat set" where
  "header_region lay phoff phnum =
     {0 ..< sizeof_Ehdr lay} \<union> (if phnum = 0 then {} else {phoff ..< phoff + phnum * sizeof_Phdr lay})"


definition example_two_segments :: "byte list" where
  "example_two_segments =
     [0x7f, 0x45, 0x4c, 0x46, 1, 1, 1, 0, 0, 0, 0, 0, 0, 0, 0, 0,
      2, 0, 40, 0, 1, 0, 0, 0, 0, 0, 0, 0, 52, 0, 0, 0,
      0, 0, 0, 0, 0, 0, 0, 0, 52, 0, 32, 0, 2, 0, 0, 0,
      0, 0, 0, 0,
      1, 0, 0, 0, 116, 0, 0, 0, 0, 0, 0, 0, 0, 0, 0, 0,
      2, 0, 0, 0, 2, 0, 0, 0, 0, 0, 0, 2, 0, 0, 0, 0,
      1, 0, 0, 0, 118, 0, 0, 0, 0, 0, 0, 0, 0, 0, 0, 0,
      2, 0, 0, 0, 2, 0, 0, 0, 0, 0, 0, 0, 0, 0, 0, 0,
      0xAA, 0xBB, 0xCC, 0xDD]"

definition hash_bytes :: "elf_types \<Rightarrow> bool \<Rightarrow> bool \<Rightarrow> byte list list \<Rightarrow> nat" where
  "hash_bytes lay native_le le phdrs =
     sum_list (map (\<lambda>phdr. let info = get_phdr_info lay native_le phdr le in
                      if is_pil_hash_segment (flags info) then filesz info else 0) phdrs)"



definition example_hash_only :: "byte list" where
  "example_hash_only =
     [0x7f, 0x45, 0x4c, 0x46, 1, 1, 1, 0, 0, 0, 0, 0, 0, 0, 0, 0,
      2, 0, 40, 0, 1, 0, 0, 0, 0, 0, 0, 0, 52, 0, 0, 0,
      0, 0, 0, 0, 0, 0, 0, 0, 52, 0, 32, 0, 1, 0, 0, 0,
      0, 0, 0, 0,
      1, 0, 0, 0, 84, 0, 0, 0, 0, 0, 0, 0, 0, 0, 0, 0,
      4, 0, 0, 0, 4, 0, 0, 0, 0, 0, 0, 2, 0, 0, 0, 0,
      0xAA, 0xBB, 0xCC, 0xDD]"


definition example_no_phdrs :: "byte list" where
  "example_no_phdrs =
     [0x7f, 0x45, 0x4c, 0x46, 1, 1, 1, 0, 0, 0, 0, 0, 0, 0, 0, 0,
      2, 0, 40, 0, 1, 0, 0, 0, 0, 0, 0, 0, 52, 0, 0, 0,
      0, 0, 0, 0, 0, 0, 0, 0, 52, 0, 32, 0, 0, 0, 0, 0,
      0, 0, 0, 0]"

definition example_header_segment :: "byte list" where
  "example_header_segment =
     [0x7f, 0x45, 0x4c, 0x46, 1, 1, 1, 0, 0, 0, 0, 0, 0, 0, 0, 0,
      2, 0, 40, 0, 1, 0, 0, 0, 0, 0, 0, 0, 52, 0, 0, 0,
      0, 0, 0, 0, 0, 0, 0, 0, 52, 0, 32, 0, 1, 0, 0, 0,
      0, 0, 0, 0,
      0, 0, 0, 0, 0, 0, 0, 0, 0, 0, 0, 0, 0, 0, 0, 0,
      84, 0, 0, 0, 0, 0, 0, 0, 0, 0, 0, 7, 0, 0, 0, 0]"


declare decimal.simps [simp del]

section \<open>Properties of the byte order adapter\<close>

lemma byte_masks:
  "(0xFF :: 'a::len word) = mask 8"
  "(0xFF00 :: 'a::len word) = push_bit 8 (mask 8)"
  "(0xFF0000 :: 'a::len word) = push_bit 16 (mask 8)"
  "(0xFF000000 :: 'a::len word) = push_bit 24 (mask 8)"
  "(0xFF00000000 :: 'a::len word) = push_bit 32 (mask 8)"
  "(0xFF0000000000 :: 'a::len word) = push_bit 40 (mask 8)"
  "(0xFF000000000000 :: 'a::len word) = push_bit 48 (mask 8)"
  "(0xFF00000000000000 :: 'a::len word) = push_bit 56 (mask 8)"
  by (simp_all add: mask_eq_exp_minus_1)

lemma upt_2_4_8:
  "[0..<2] = [0, Suc 0]"
  "[0..<4] = [0, Suc 0, 2, 3]"
  "[0..<8] = [0, Suc 0, 2, 3, 4, 5, 6, 7]"
  by (simp_all add: upt_rec)

lemma byte_at_byteswap16:
  "byte_at (byteswap16 v) 0 = byte_at v (Suc 0)"
  "byte_at (byteswap16 v) (Suc 0) = byte_at v 0"
  unfolding byteswap16_def byte_at_def Let_def
  by (rule bit_word_eqI, auto simp add: bit_simps dest: bit_imp_le_length)+

lemma byte_at_byteswap32:
  "byte_at (byteswap32 v) 0 = byte_at v 3"
  "byte_at (byteswap32 v) (Suc 0) = byte_at v 2"
  "byte_at (byteswap32 v) 2 = byte_at v (Suc 0)"
  "byte_at (byteswap32 v) 3 = byte_at v 0"
  unfolding byteswap32_def byte_at_def byte_masks
  by (rule bit_word_eqI, auto simp add: bit_simps)+

lemma byte_at_byteswap64:
  "byte_at (byteswap64 v) 0 = byte_at v 7"
  "byte_at (byteswap64 v) (Suc 0) = byte_at v 6"
  "byte_at (byteswap64 v) 2 = byte_at v 5"
  "byte_at (byteswap64 v) 3 = byte_at v 4"
  "byte_at (byteswap64 v) 4 = byte_at v 3"
  "byte_at (byteswap64 v) 5 = byte_at v 2"
  "byte_at (byteswap64 v) 6 = byte_at v (Suc 0)"
  "byte_at (byteswap64 v) 7 = byte_at v 0"
  unfolding byteswap64_def byte_at_def byte_masks
  by (rule bit_word_eqI, auto simp add: bit_simps)+

lemma word_bytes_byteswap8: "word_bytes (byteswap8 v) = rev (word_bytes v)"
  by (simp add: word_bytes_def byteswap8_def)

lemma word_bytes_byteswap16: "word_bytes (byteswap16 v) = rev (word_bytes v)"
  by (simp add: word_bytes_def upt_2_4_8 byte_at_byteswap16)

lemma word_bytes_byteswap32: "word_bytes (byteswap32 v) = rev (word_bytes v)"
  by (simp add: word_bytes_def upt_2_4_8 byte_at_byteswap32)

lemma word_bytes_byteswap64: "word_bytes (byteswap64 v) = rev (word_bytes v)"
  by (simp add: word_bytes_def upt_2_4_8 byte_at_byteswap64)

text \<open>An integer of a whole number of bytes is determined by its bytes, so "the
  byte-reversed value" names one value.\<close>

lemma word_bytes_inj:
  fixes v w :: "'a::len word"
  assumes "word_bytes v = word_bytes w" and "8 dvd LENGTH('a)"
  shows "v = w"
proof (rule bit_word_eqI)
  fix n assume n: "n < LENGTH('a)"
  with assms(2) have "n div 8 < LENGTH('a) div 8"
    by (metis dvd_div_mult_self less_mult_imp_div_less)
  with assms(1) have "byte_at v (n div 8) = byte_at w (n div 8)"
    by (simp add: word_bytes_def)
  then have "bit (byte_at v (n div 8)) (n mod 8) = bit (byte_at w (n div 8)) (n mod 8)"
    by simp
  then show "bit v n = bit w n"
    by (simp add: byte_at_def bit_simps)
qed

text \<open>
  Claim C6. For an unsigned integer of 8, 16, 32 or 64 bits, \<open>from_file_endian\<close> returns
  the value unchanged when the byte order of the file is the byte order of the host, and
  the value with its bytes in reverse order when the two differ. The function is total:
  it has no error result.
\<close>

theorem from_file_endian_contract:
  "from_file_endian8 native_le v8 native_le = v8 \<and>
   from_file_endian16 native_le v16 native_le = v16 \<and>
   from_file_endian32 native_le v32 native_le = v32 \<and>
   from_file_endian64 native_le v64 native_le = v64 \<and>
   word_bytes (from_file_endian8 native_le v8 (\<not> native_le)) = rev (word_bytes v8) \<and>
   word_bytes (from_file_endian16 native_le v16 (\<not> native_le)) = rev (word_bytes v16) \<and>
   word_bytes (from_file_endian32 native_le v32 (\<not> native_le)) = rev (word_bytes v32) \<and>
   word_bytes (from_file_endian64 native_le v64 (\<not> native_le)) = rev (word_bytes v64)"
  by (simp add: from_file_endian8_def from_file_endian16_def from_file_endian32_def
      from_file_endian64_def word_bytes_byteswap8 word_bytes_byteswap16
      word_bytes_byteswap32 word_bytes_byteswap64)

section \<open>Properties of the segment classifier\<close>

lemma seven_is_mask: "(7 :: 32 word) = mask 3"
  by (simp add: mask_eq_exp_minus_1)

lemma segment_type_unat:
  "unat (drop_bit 24 f AND (7 :: 32 word)) = (unat f div 2 ^ 24) mod 8"
  unfolding seven_is_mask
  by (simp add: unat_div_distrib unat_mod_distrib drop_bit_eq_div take_bit_eq_mod
      flip: take_bit_eq_mask)

lemma segment_type_bits:
  "(drop_bit 24 f AND (7 :: 32 word)) = 2 \<longleftrightarrow> \<not> bit f 24 \<and> bit f 25 \<and> \<not> bit f 26"
  (is "?L = ?R")
proof
  assume L: ?L
  have "bit (drop_bit 24 f AND (7 :: 32 word)) 0 = bit (2 :: 32 word) 0"
       "bit (drop_bit 24 f AND (7 :: 32 word)) 1 = bit (2 :: 32 word) 1"
       "bit (drop_bit 24 f AND (7 :: 32 word)) 2 = bit (2 :: 32 word) 2"
    using L by simp_all
  then show ?R
    unfolding seven_is_mask by (simp add: bit_simps)
next
  assume R: ?R
  show ?L
    unfolding seven_is_mask
  proof (rule bit_word_eqI)
    fix n assume "n < LENGTH(32)"
    have c: "n = 0 \<or> n = 1 \<or> n = 2 \<or> 3 \<le> n" by arith
    have two: "(2 :: 32 word) = push_bit 1 1" by simp
    show "bit (drop_bit 24 f AND mask 3) n = bit (2 :: 32 word) n"
      unfolding two using c R by (auto simp add: bit_simps)
  qed
qed

text \<open>
  Claim C5. \<open>is_pil_hash_segment\<close> is a total function of the 32-bit \<open>p_flags\<close> alone
  (so two applications to the same value agree); it is true exactly when the 3-bit field in
  bits 24 to 26 holds the tag 2, that is, when bit 25 is set and bits 24 and 26 are clear.
\<close>

theorem is_pil_hash_segment_bits_24_26:
  "(is_pil_hash_segment p_flags \<longleftrightarrow> (unat p_flags div 2 ^ 24) mod 8 = 2) \<and>
   (is_pil_hash_segment p_flags \<longleftrightarrow> \<not> bit p_flags 24 \<and> bit p_flags 25 \<and> \<not> bit p_flags 26)"
proof -
  have "is_pil_hash_segment p_flags \<longleftrightarrow> (drop_bit 24 p_flags AND (7 :: 32 word)) = 2"
    by (simp add: is_pil_hash_segment_def PIL_SEGMENT_TYPE_SHIFT_def
        PIL_SEGMENT_TYPE_MASK_def PIL_SEGMENT_TYPE_HASH_def)
  moreover have "(drop_bit 24 p_flags AND (7 :: 32 word)) = 2 \<longleftrightarrow>
      unat (drop_bit 24 p_flags AND (7 :: 32 word)) = 2"
    by (simp add: word_unat_eq_iff)
  ultimately show ?thesis
    by (simp add: segment_type_unat segment_type_bits)
qed

lemma digit_val:
  assumes "d < 10"
  shows "(of_char (digit_char d) :: nat) = 48 + d"
proof -
  from assms have "d = 0 \<or> d = 1 \<or> d = 2 \<or> d = 3 \<or> d = 4 \<or> d = 5 \<or> d = 6 \<or> d = 7
      \<or> d = 8 \<or> d = 9"
    by arith
  then show ?thesis
    by (elim disjE) (simp_all add: digit_char_def)
qed

lemma digits_value_snoc: "digits_value (s @ [c]) = 10 * digits_value s + (of_char c - 48)"
  by (simp add: digits_value_def)

lemma digits_value_decimal: "digits_value (decimal n) = n"
proof (induction n rule: decimal.induct)
  case (1 n)
  show ?case
  proof (cases "n < 10")
    case True
    then show ?thesis
      by (subst decimal.simps) (simp add: digits_value_def digit_val)
  next
    case False
    then have "digits_value (decimal (n div 10)) = n div 10"
      using 1 by simp
    moreover have "n mod 10 < 10" by simp
    ultimately show ?thesis
      using False
      by (subst decimal.simps) (simp add: digits_value_snoc digit_val)
  qed
qed

lemma digits_value_zeros: "digits_value (replicate k CHR ''0'' @ s) = digits_value s"
proof (induction k)
  case 0
  show ?case by simp
next
  case (Suc k)
  have "digits_value (CHR ''0'' # replicate k CHR ''0'' @ s) = digits_value (replicate k CHR ''0'' @ s)"
    by (simp add: digits_value_def)
  with Suc show ?case by simp
qed

lemma bxx_extension_value: "digits_value (drop 2 (bxx_extension i)) = i"
  by (simp add: bxx_extension_def Let_def digits_value_zeros digits_value_decimal)

lemma bxx_extension_inj:
  assumes "bxx_extension i = bxx_extension j"
  shows "i = j"
proof -
  have "digits_value (drop 2 (bxx_extension i)) = digits_value (drop 2 (bxx_extension j))"
    by (simp only: assms)
  then show ?thesis
    by (simp only: bxx_extension_value)
qed

lemma filename_suffix: "\<exists>d. p = d @ filename p"
proof -
  have "rev p = takeWhile (\<lambda>c. c \<noteq> CHR ''/'') (rev p) @ dropWhile (\<lambda>c. c \<noteq> CHR ''/'') (rev p)"
    by simp
  then have "p = rev (dropWhile (\<lambda>c. c \<noteq> CHR ''/'') (rev p)) @ filename p"
    unfolding filename_def by (metis rev_append rev_rev_ident)
  then show ?thesis ..
qed

lemma extension_cases:
  "extension p = [] \<or>
   (extension p = CHR ''.'' # rev (takeWhile (\<lambda>c. c \<noteq> CHR ''.'') (rev (filename p))) \<and>
    length (takeWhile (\<lambda>c. c \<noteq> CHR ''.'') (rev (filename p))) \<noteq> length (filename p))"
  unfolding extension_def Let_def by simp

lemma extension_suffix_filename: "\<exists>s. filename p = s @ extension p"
proof -
  let ?f = "filename p"
  let ?t = "takeWhile (\<lambda>c. c \<noteq> CHR ''.'') (rev ?f)"
  let ?d = "dropWhile (\<lambda>c. c \<noteq> CHR ''.'') (rev ?f)"
  show ?thesis
  proof (cases "extension p = []")
    case True
    then show ?thesis by simp
  next
    case False
    then have ext: "extension p = CHR ''.'' # rev ?t" and len: "length ?t \<noteq> length ?f"
      using extension_cases [of p] by blast+
    have split: "rev ?f = ?t @ ?d" by simp
    have "?d \<noteq> []"
    proof
      assume "?d = []"
      with split have "rev ?f = ?t" by simp
      then have "length ?t = length ?f" by (metis length_rev)
      with len show False by simp
    qed
    then obtain x xs where d: "?d = x # xs" by (cases ?d) auto
    have "\<not> (hd ?d \<noteq> CHR ''.'')"
      using \<open>?d \<noteq> []\<close> by (rule hd_dropWhile)
    then have x: "x = CHR ''.''" using d by simp
    from split have "rev (rev ?f) = rev (?t @ ?d)" by (rule arg_cong)
    then have "?f = rev xs @ (CHR ''.'' # rev ?t)"
      using d x by simp
    then show ?thesis using ext by metis
  qed
qed

lemma extension_suffix: "p = take (length p - length (extension p)) p @ extension p"
proof -
  obtain d where d: "p = d @ filename p" using filename_suffix by blast
  obtain s where s: "filename p = s @ extension p" using extension_suffix_filename by blast
  have "p = (d @ s) @ extension p" using d s by simp
  then show ?thesis
    by (metis append_eq_conv_conj length_append add_diff_cancel_right')
qed

lemma replace_extension_bxx:
  "replace_extension p (bxx_extension i) =
     take (length p - length (extension p)) p @ bxx_extension i"
  by (simp add: replace_extension_def bxx_extension_def Let_def)

lemma bxx_path_inj:
  "replace_extension p (bxx_extension i) = replace_extension p (bxx_extension j) \<Longrightarrow> i = j"
  by (simp add: replace_extension_bxx bxx_extension_inj)

lemma bxx_path_neq_mdt:
  assumes "extension p = ''.mdt''"
  shows "replace_extension p (bxx_extension i) \<noteq> p"
proof
  assume "replace_extension p (bxx_extension i) = p"
  then have "take (length p - length (extension p)) p @ bxx_extension i
      = take (length p - length (extension p)) p @ extension p"
    using extension_suffix [of p] by (simp add: replace_extension_bxx)
  then have "bxx_extension i = ''.mdt''" using assms by simp
  then show False by (simp add: bxx_extension_def Let_def)
qed

lemma write_at_length:
  "d \<noteq> [] \<Longrightarrow> length (write_at bs off d) = max (length bs) (off + length d)"
  by (auto simp: write_at_def)

lemma write_at_nth_inside:
  assumes "off \<le> k" "k < off + length d"
  shows "write_at bs off d ! k = d ! (k - off)"
proof -
  from assms have ne: "d \<noteq> []" by auto
  let ?pre = "take off bs @ replicate (off - length bs) 0"
  have len: "length ?pre = off" by auto
  have "write_at bs off d = ?pre @ (d @ drop (off + length d) bs)"
    using ne by (simp add: write_at_def)
  moreover have "length ?pre \<le> k" using assms(1) len by simp
  ultimately have "write_at bs off d ! k = (d @ drop (off + length d) bs) ! (k - length ?pre)"
    by (simp only: nth_append_right)
  moreover have "k - off < length d" using assms by arith
  ultimately show ?thesis unfolding len by (simp only: nth_append_left)
qed

lemma write_at_nth_outside:
  assumes "k < length bs" "k < off \<or> off + length d \<le> k"
  shows "write_at bs off d ! k = bs ! k"
proof (cases "d = []")
  case True
  then show ?thesis by (simp add: write_at_def)
next
  case False
  let ?pre = "take off bs @ replicate (off - length bs) 0"
  have len: "length ?pre = off" by auto
  have w: "write_at bs off d = ?pre @ (d @ drop (off + length d) bs)"
    using False by (simp add: write_at_def)
  from assms(2) show ?thesis
  proof
    assume "k < off"
    then have "k < length ?pre" using len by simp
    then have "write_at bs off d ! k = ?pre ! k"
      unfolding w by (rule nth_append_left)
    also have "\<dots> = take off bs ! k"
    proof (rule nth_append_left)
      show "k < length (take off bs)" using \<open>k < off\<close> assms(1) by simp
    qed
    also have "\<dots> = bs ! k"
      using \<open>k < off\<close> by simp
    finally show ?thesis .
  next
    assume ge: "off + length d \<le> k"
    then have "length ?pre \<le> k" using len by simp
    then have "write_at bs off d ! k = (d @ drop (off + length d) bs) ! (k - length ?pre)"
      unfolding w by (rule nth_append_right)
    also have "\<dots> = (d @ drop (off + length d) bs) ! (k - off)"
      unfolding len ..
    also have "\<dots> = drop (off + length d) bs ! (k - off - length d)"
    proof (rule nth_append_right)
      show "length d \<le> k - off" using ge by arith
    qed
    also have "\<dots> = bs ! (off + length d + (k - off - length d))"
      using assms(1) ge by (simp only: nth_drop) 
    also have "off + length d + (k - off - length d) = k"
      using ge by arith
    finally show ?thesis .
  qed
qed

lemma agrees_on_write:
  assumes "agrees_on m out W" "off + n \<le> length m" "0 < n"
  shows "agrees_on m (write_at out off (take n (drop off m))) (W \<union> {off..<off + n})"
proof -
  let ?d = "take n (drop off m)"
  have ld: "length ?d = n" using assms(2) by simp
  then have ne: "?d \<noteq> []" using assms(3) by auto
  have len: "length (write_at out off ?d) = max (length out) (off + n)"
    using write_at_length [OF ne] ld by simp
  have "length (write_at out off ?d) \<le> length m"
    using len assms(1,2) by (simp add: agrees_on_def)
  moreover have "k < length (write_at out off ?d) \<and> write_at out off ?d ! k = m ! k"
    if "k \<in> W \<union> {off..<off + n}" for k
  proof (cases "off \<le> k \<and> k < off + n")
    case True
    then have "write_at out off ?d ! k = ?d ! (k - off)"
      using write_at_nth_inside [of off k ?d out] ld by simp
    also have "\<dots> = m ! (off + (k - off))"
    proof -
      have "k - off < n" using True by arith
      then show ?thesis using assms(2) by simp
    qed
    also have "off + (k - off) = k" using True by simp
    finally show ?thesis using True len by auto
  next
    case False
    with that have "k \<in> W" by auto
    with assms(1) have k: "k < length out" "out ! k = m ! k"
      by (auto simp: agrees_on_def)
    have "write_at out off ?d ! k = out ! k"
      using write_at_nth_outside [of k out off ?d] k(1) False ld by auto
    then show ?thesis using k len by simp
  qed
  ultimately show ?thesis by (simp add: agrees_on_def)
qed

lemma agrees_on_mono: "agrees_on m out W \<Longrightarrow> V \<subseteq> W \<Longrightarrow> agrees_on m out V"
  by (auto simp: agrees_on_def)


lemma agrees_on_slice:
  assumes "agrees_on m out W" "{off..<off + n} \<subseteq> W" "0 < n"
  shows "off + n \<le> length out \<and> take n (drop off out) = take n (drop off m)"
proof -
  have "off + n - 1 \<in> W" using assms(2,3) by auto
  then have "off + n - 1 < length out" using assms(1) by (auto simp: agrees_on_def)
  then have lo: "off + n \<le> length out" using assms(3) by simp
  then have lm: "off + n \<le> length m" using assms(1) by (simp add: agrees_on_def)
  have "take n (drop off out) = take n (drop off m)"
  proof (rule nth_equalityI)
    show "length (take n (drop off out)) = length (take n (drop off m))"
      using lo lm by simp
  next
    fix k assume "k < length (take n (drop off out))"
    then have k: "k < n" by simp
    then have "off + k \<in> W" using assms(2) by auto
    then have "out ! (off + k) = m ! (off + k)" using assms(1) by (auto simp: agrees_on_def)
    then show "take n (drop off out) ! k = take n (drop off m) ! k"
      using k lo lm by simp
  qed
  with lo show ?thesis by simp
qed

lemma read_file_at_Inr:
  "read_file_at f off n = Inr bs \<longleftrightarrow>
     off + n < streamoff_limit \<and> off + n \<le> length f \<and> bs = take n (drop off f)"
  by (auto simp: read_file_at_def)

lemma read_struct_at_Inr:
  "read_struct_at f off n = Inr bs \<longleftrightarrow>
     off + n < streamoff_limit \<and> off + n \<le> length f \<and> bs = take n (drop off f)"
  by (auto simp: read_struct_at_def)

lemma contents_upd [simp]: "contents (fs(p \<mapsto> bs)) q = (if q = p then bs else contents fs q)"
  by (simp add: contents_def)

lemma contents_Some: "fs p = Some bs \<Longrightarrow> contents fs p = bs"
  by (simp add: contents_def)

lemma write_file_at_Inr:
  "write_file_at fs p off d = Inr fs' \<longleftrightarrow>
     off + length d < streamoff_limit \<and> fs' = fs(p \<mapsto> write_at (contents fs p) off d)"
  by (auto simp: write_file_at_def)

lemma sizeof_Phdr_bounds: "0 < sizeof_Phdr lay" "sizeof_Phdr lay \<le> 56"
  by (cases lay; simp)+

lemma sizeof_Ehdr_bounds: "16 \<le> sizeof_Ehdr lay" "sizeof_Ehdr lay \<le> 64"
  by (cases lay; simp)+

lemma e_phnum_bound: "e_phnum lay native_le ehdr le < 65536"
proof -
  have "unat (w :: 16 word) < 65536" for w
    using unsigned_less [of w, where 'a = nat] by simp
  then show ?thesis by (cases lay) simp_all
qed

lemma read_phdr_entries_Inr:
  "read_phdr_entries lay f phoff is = Inr phdrs \<longleftrightarrow>
     length phdrs = length is \<and>
     (\<forall>k<length is. read_struct_at f ((phoff + is ! k * sizeof_Phdr lay) mod size_t_range)
                        (sizeof_Phdr lay) = Inr (phdrs ! k))"
proof (induction "is" arbitrary: phdrs)
  case Nil
  then show ?case by auto
next
  case (Cons i "is")
  show ?case
  proof (cases phdrs)
    case Nil
    then show ?thesis by (auto split: sum.splits)
  next
    case (Cons ph phs)
    have "read_phdr_entries lay f phoff (i # is) = Inr (ph # phs) \<longleftrightarrow>
        read_struct_at f ((phoff + i * sizeof_Phdr lay) mod size_t_range) (sizeof_Phdr lay) = Inr ph \<and>
        read_phdr_entries lay f phoff is = Inr phs"
      by (auto split: sum.splits)
    also have "\<dots> \<longleftrightarrow> length (ph # phs) = length (i # is) \<and>
        (\<forall>k<length (i # is). read_struct_at f ((phoff + (i # is) ! k * sizeof_Phdr lay) mod size_t_range)
                        (sizeof_Phdr lay) = Inr ((ph # phs) ! k))"
      unfolding Cons.IH [of phs]
      by (auto simp: nth_Cons split: nat.splits)
    finally show ?thesis using Cons by simp
  qed
qed

lemma read_program_headers_Inr:
  "read_program_headers lay native_le f ehdr le = Inr phdrs \<longleftrightarrow>
     length phdrs = e_phnum lay native_le ehdr le \<and>
     (\<forall>k<length phdrs. read_struct_at f
         ((e_phoff lay native_le ehdr le + k * sizeof_Phdr lay) mod size_t_range)
         (sizeof_Phdr lay) = Inr (phdrs ! k))"
  unfolding read_program_headers_def Let_def read_phdr_entries_Inr
  by auto

text \<open>When the first entry of a table can be read, no entry offset wraps around.\<close>

lemma phdr_offset_no_wrap:
  assumes "phoff + sizeof_Phdr lay < streamoff_limit" "k < 65536"
  shows "(phoff + k * sizeof_Phdr lay) mod size_t_range = phoff + k * sizeof_Phdr lay"
proof -
  have "k * sizeof_Phdr lay \<le> 65536 * 56"
    using assms(2) sizeof_Phdr_bounds(2) [of lay] by (intro mult_le_mono) simp_all
  then have "phoff + k * sizeof_Phdr lay < size_t_range"
    using assms(1) by (simp add: streamoff_limit_def size_t_range_def)
  then show ?thesis by simp
qed

lemma read_program_headers_offsets:
  assumes "read_program_headers lay native_le f ehdr le = Inr phdrs" "k < length phdrs"
  shows "e_phoff lay native_le ehdr le + k * sizeof_Phdr lay + sizeof_Phdr lay \<le> length f"
    and "e_phoff lay native_le ehdr le + k * sizeof_Phdr lay + sizeof_Phdr lay < streamoff_limit"
    and "phdrs ! k = take (sizeof_Phdr lay) (drop (e_phoff lay native_le ehdr le + k * sizeof_Phdr lay) f)"
    and "(e_phoff lay native_le ehdr le + k * sizeof_Phdr lay) mod size_t_range
           = e_phoff lay native_le ehdr le + k * sizeof_Phdr lay"
proof -
  let ?phoff = "e_phoff lay native_le ehdr le" and ?P = "sizeof_Phdr lay"
  from assms have len: "length phdrs = e_phnum lay native_le ehdr le"
    and rd: "\<And>j. j < length phdrs \<Longrightarrow>
       read_struct_at f ((?phoff + j * ?P) mod size_t_range) ?P = Inr (phdrs ! j)"
    by (simp_all add: read_program_headers_Inr)
  have "0 < length phdrs" using assms(2) by (cases phdrs) simp_all
  from rd [OF this] have "?phoff mod size_t_range + ?P < streamoff_limit"
    by (simp add: read_struct_at_Inr)
  moreover have "?phoff < size_t_range"
  proof (cases lay)
    case Elf32
    have "unat (w :: 32 word) < 2 ^ 64" for w
      using unsigned_less [of w, where 'a = nat] by simp
    then show ?thesis using Elf32 by (simp add: size_t_range_def)
  next
    case Elf64
    have "unat (w :: 64 word) < 2 ^ 64" for w
      using unsigned_less [of w, where 'a = nat] by simp
    then show ?thesis using Elf64 by (simp add: size_t_range_def)
  qed
  ultimately have first: "?phoff + ?P < streamoff_limit" by simp
  have "k < 65536" using assms(2) len e_phnum_bound [of lay native_le ehdr le] by simp
  from phdr_offset_no_wrap [OF first this]
  show nw: "(?phoff + k * ?P) mod size_t_range = ?phoff + k * ?P" .
  from rd [OF assms(2)] nw
  show "?phoff + k * ?P + ?P \<le> length f" "?phoff + k * ?P + ?P < streamoff_limit"
    "phdrs ! k = take ?P (drop (?phoff + k * ?P) f)"
    by (simp_all add: read_struct_at_Inr)
qed

lemma limit_lt_range: "streamoff_limit < size_t_range"
  by (simp add: streamoff_limit_def size_t_range_def)

lemma write_phdr_entries_agrees:
  assumes "agrees_on m (contents fs out) W"
    and "phoff + (i + length phdrs) * sizeof_Phdr lay \<le> length m"
    and "phoff + (i + length phdrs) * sizeof_Phdr lay < streamoff_limit"
    and "\<forall>k<length phdrs. phdrs ! k =
           take (sizeof_Phdr lay) (drop (phoff + (i + k) * sizeof_Phdr lay) m)"
  shows "\<exists>fs'. write_phdr_entries lay fs out phoff i phdrs = Inr fs' \<and>
           (\<forall>p. p \<noteq> out \<longrightarrow> fs' p = fs p) \<and>
           agrees_on m (contents fs' out)
             (W \<union> {phoff + i * sizeof_Phdr lay ..< phoff + (i + length phdrs) * sizeof_Phdr lay}) \<and>
           length (contents fs' out) =
             (if phdrs = [] then length (contents fs out)
              else max (length (contents fs out)) (phoff + (i + length phdrs) * sizeof_Phdr lay))"
  using assms
proof (induction phdrs arbitrary: fs i W)
  case Nil
  then show ?case by simp
next
  case (Cons ph phs)
  let ?P = "sizeof_Phdr lay"
  let ?off = "phoff + i * ?P"
  let ?c = "write_at (contents fs out) ?off ph"
  let ?fs1 = "fs(out \<mapsto> ?c)"
  have P: "0 < ?P" by (rule sizeof_Phdr_bounds)
  have le1: "?off + ?P \<le> phoff + (i + length (ph # phs)) * ?P"
    by (simp add: algebra_simps)
  then have b: "?off + ?P \<le> length m" "?off + ?P < streamoff_limit"
    using Cons.prems(2,3) by linarith+
  have ph: "ph = take ?P (drop ?off m)"
    using Cons.prems(4) by (auto dest: spec [of _ 0])
  have lph: "length ph = ?P" using ph b(1) by simp
  have nw: "?off mod size_t_range = ?off"
    using b(2) limit_lt_range by simp
  have w: "write_file_at fs out (?off mod size_t_range) ph = Inr ?fs1"
    using b(2) lph by (simp add: write_file_at_Inr nw)
  have ag: "agrees_on m ?c (W \<union> {?off..<?off + ?P})"
    unfolding ph by (rule agrees_on_write [OF Cons.prems(1) b(1) P])
  have "ph \<noteq> []" using lph P by auto
  from write_at_length [OF this, of "contents fs out" ?off]
  have lc: "length ?c = max (length (contents fs out)) (?off + ?P)"
    using lph by simp
  have idx: "phoff + (Suc i + length phs) * ?P = phoff + (i + length (ph # phs)) * ?P"
    by simp
  have rest: "\<forall>k<length phs. phs ! k = take ?P (drop (phoff + (Suc i + k) * ?P) m)"
    using Cons.prems(4) by (auto dest: spec [of _ "Suc k" for k])
  have c1: "contents ?fs1 out = ?c" by simp
  have "\<exists>fs'. write_phdr_entries lay ?fs1 out phoff (Suc i) phs = Inr fs' \<and>
           (\<forall>p. p \<noteq> out \<longrightarrow> fs' p = ?fs1 p) \<and>
           agrees_on m (contents fs' out)
             (W \<union> {?off..<?off + ?P} \<union>
               {phoff + Suc i * ?P ..< phoff + (Suc i + length phs) * ?P}) \<and>
           length (contents fs' out) =
             (if phs = [] then length (contents ?fs1 out)
              else max (length (contents ?fs1 out)) (phoff + (Suc i + length phs) * ?P))"
  proof (rule Cons.IH)
    show "agrees_on m (contents ?fs1 out) (W \<union> {?off..<?off + ?P})"
      unfolding c1 by (rule ag)
    show "phoff + (Suc i + length phs) * ?P \<le> length m"
      unfolding idx by (rule Cons.prems(2))
    show "phoff + (Suc i + length phs) * ?P < streamoff_limit"
      unfolding idx by (rule Cons.prems(3))
    show "\<forall>k<length phs. phs ! k = take ?P (drop (phoff + (Suc i + k) * ?P) m)"
      by (rule rest)
  qed
  then obtain fs' where fs': "write_phdr_entries lay ?fs1 out phoff (Suc i) phs = Inr fs'"
    "\<forall>p. p \<noteq> out \<longrightarrow> fs' p = ?fs1 p"
    "agrees_on m (contents fs' out)
       (W \<union> {?off..<?off + ?P} \<union> {phoff + Suc i * ?P ..< phoff + (Suc i + length phs) * ?P})"
    "length (contents fs' out) =
       (if phs = [] then length (contents ?fs1 out)
        else max (length (contents ?fs1 out)) (phoff + (Suc i + length phs) * ?P))"
    by blast
  have run: "write_phdr_entries lay fs out phoff i (ph # phs) = Inr fs'"
    using w fs'(1) by simp
  have frame: "\<forall>p. p \<noteq> out \<longrightarrow> fs' p = fs p"
    using fs'(2) by simp
  have sets: "W \<union> {?off..<?off + ?P} \<union> {phoff + Suc i * ?P ..< phoff + (Suc i + length phs) * ?P}
      \<supseteq> W \<union> {?off ..< phoff + (i + length (ph # phs)) * ?P}"
    by (auto simp: algebra_simps)
  have ag': "agrees_on m (contents fs' out) (W \<union> {?off ..< phoff + (i + length (ph # phs)) * ?P})"
    using agrees_on_mono [OF fs'(3) sets] .
  have len: "length (contents fs' out) =
      max (length (contents fs out)) (phoff + (i + length (ph # phs)) * ?P)"
  proof (cases "phs = []")
    case True
    then show ?thesis using fs'(4) lc by (simp add: algebra_simps)
  next
    case False
    then show ?thesis using fs'(4) lc le1 by (simp add: algebra_simps max_def)
  qed
  show ?case using run frame ag' len by simp
qed

lemma hash_stream_Nil [simp]: "hash_stream lay native_le le file [] = []"
  by (simp add: hash_stream_def)


lemma write_segment_file_Inr:
  "write_segment_file fs mdt_path i data = Inr fs' \<longleftrightarrow>
     length data < streamoff_limit \<and> fs' = fs(bxx_path mdt_path i \<mapsto> data)"
  by (auto simp: write_segment_file_def Let_def)

lemma append_to_file_Inr:
  "append_to_file fs p data = Inr fs' \<longleftrightarrow>
     length (contents fs p) + length data < streamoff_limit \<and>
     fs' = fs(p \<mapsto> contents fs p @ data)"
  by (auto simp: append_to_file_def)

lemma split_segments_skip:
  "filesz (get_phdr_info lay native_le ph le) = 0 \<Longrightarrow>
     split_segments lay native_le fs mbn mdt_path le i (ph # phs) =
     split_segments lay native_le fs mbn mdt_path le (Suc i) phs"
  by simp

lemma split_segments_step:
  assumes "split_segments lay native_le fs mbn mdt_path le i (ph # phs) = Inr fs'"
    and "filesz (get_phdr_info lay native_le ph le) \<noteq> 0"
  shows "\<exists>fs1.
      offset (get_phdr_info lay native_le ph le) + filesz (get_phdr_info lay native_le ph le)
        \<le> length (contents fs mbn) \<and>
      offset (get_phdr_info lay native_le ph le) + filesz (get_phdr_info lay native_le ph le)
        < streamoff_limit \<and>
      split_segments lay native_le fs1 mbn mdt_path le (Suc i) phs = Inr fs' \<and>
      (if is_pil_hash_segment (flags (get_phdr_info lay native_le ph le))
       then length (contents (fs(bxx_path mdt_path i \<mapsto>
                  segment_bytes (contents fs mbn) (get_phdr_info lay native_le ph le))) mdt_path)
              + filesz (get_phdr_info lay native_le ph le) < streamoff_limit \<and>
            fs1 = (fs(bxx_path mdt_path i \<mapsto>
                  segment_bytes (contents fs mbn) (get_phdr_info lay native_le ph le)))
                  (mdt_path \<mapsto> contents (fs(bxx_path mdt_path i \<mapsto>
                  segment_bytes (contents fs mbn) (get_phdr_info lay native_le ph le))) mdt_path
                     @ segment_bytes (contents fs mbn) (get_phdr_info lay native_le ph le))
       else fs1 = fs(bxx_path mdt_path i \<mapsto>
                  segment_bytes (contents fs mbn) (get_phdr_info lay native_le ph le)))"
proof -
  let ?info = "get_phdr_info lay native_le ph le"
  let ?seg = "segment_bytes (contents fs mbn) ?info"
  let ?fs1 = "fs(bxx_path mdt_path i \<mapsto> ?seg)"
  from assms obtain seg where rd: "read_file_at (contents fs mbn) (offset ?info) (filesz ?info) = Inr seg"
    by (cases "read_file_at (contents fs mbn) (offset ?info) (filesz ?info)") (simp_all add: Let_def)
  then have b: "offset ?info + filesz ?info \<le> length (contents fs mbn)"
    "offset ?info + filesz ?info < streamoff_limit" and seg: "seg = ?seg"
    by (simp_all add: read_file_at_Inr segment_bytes_def)
  have lseg: "length ?seg = filesz ?info"
    using b(1) by (simp add: segment_bytes_def)
  have ws: "write_segment_file fs mdt_path i ?seg = Inr ?fs1"
    using b(2) lseg by (simp add: write_segment_file_Inr)
  show ?thesis
  proof (cases "is_pil_hash_segment (flags ?info)")
    case True
    from assms rd seg ws True obtain fs2 where
      ap: "append_to_file ?fs1 mdt_path ?seg = Inr fs2"
      and run: "split_segments lay native_le fs2 mbn mdt_path le (Suc i) phs = Inr fs'"
      by (cases "append_to_file ?fs1 mdt_path ?seg") (simp_all add: Let_def)
    from ap have "length (contents ?fs1 mdt_path) + filesz ?info < streamoff_limit"
      "fs2 = ?fs1(mdt_path \<mapsto> contents ?fs1 mdt_path @ ?seg)"
      using lseg by (simp_all add: append_to_file_Inr)
    with b run True show ?thesis by auto
  next
    case False
    from assms rd seg ws False
    have "split_segments lay native_le ?fs1 mbn mdt_path le (Suc i) phs = Inr fs'"
      by (simp add: Let_def)
    with b False show ?thesis by auto
  qed
qed

lemma split_segments_frame:
  assumes "split_segments lay native_le fs mbn mdt_path le i phdrs = Inr fs'"
    and "p \<noteq> mdt_path"
    and "\<forall>k<length phdrs. filesz (get_phdr_info lay native_le (phdrs ! k) le) \<noteq> 0
            \<longrightarrow> p \<noteq> bxx_path mdt_path (i + k)"
  shows "fs' p = fs p"
  using assms
proof (induction phdrs arbitrary: fs i)
  case Nil
  then show ?case by simp
next
  case (Cons ph phs)
  let ?info = "get_phdr_info lay native_le ph le"
  have shift: "\<forall>k<length phs. filesz (get_phdr_info lay native_le (phs ! k) le) \<noteq> 0
            \<longrightarrow> p \<noteq> bxx_path mdt_path (Suc i + k)"
  proof (intro allI impI)
    fix k assume "k < length phs" "filesz (get_phdr_info lay native_le (phs ! k) le) \<noteq> 0"
    then show "p \<noteq> bxx_path mdt_path (Suc i + k)"
      using Cons.prems(3) [rule_format, of "Suc k"] by simp
  qed
  show ?case
  proof (cases "filesz ?info = 0")
    case True
    then have "split_segments lay native_le fs mbn mdt_path le (Suc i) phs = Inr fs'"
      using Cons.prems(1) by simp
    from Cons.IH [OF this Cons.prems(2) shift] show ?thesis .
  next
    case False
    then have pi: "p \<noteq> bxx_path mdt_path i"
      using Cons.prems(3) [rule_format, of 0] by simp
    from split_segments_step [OF Cons.prems(1) False] obtain fs1 where
      run: "split_segments lay native_le fs1 mbn mdt_path le (Suc i) phs = Inr fs'"
      and fs1: "fs1 p = fs p"
      using pi Cons.prems(2) by (auto split: if_splits)
    from Cons.IH [OF run Cons.prems(2) shift] fs1 show ?thesis by simp
  qed
qed






lemma squash_segments_skip:
  "filesz (get_phdr_info lay native_le ph le) = 0 \<Longrightarrow>
     squash_segments lay native_le fs mdt_path mbn le h i (ph # phs) =
     squash_segments lay native_le fs mdt_path mbn le h (Suc i) phs"
  by simp

lemma squash_segments_step:
  assumes "filesz (get_phdr_info lay native_le ph le) \<noteq> 0"
    and "read_segment_data fs mdt_path i (filesz (get_phdr_info lay native_le ph le))
           (is_pil_hash_segment (flags (get_phdr_info lay native_le ph le))) h = Inr (seg, h')"
    and "offset (get_phdr_info lay native_le ph le) + length seg < streamoff_limit"
  shows "squash_segments lay native_le fs mdt_path mbn le h i (ph # phs) =
     squash_segments lay native_le
       (fs(mbn \<mapsto> write_at (contents fs mbn) (offset (get_phdr_info lay native_le ph le)) seg))
       mdt_path mbn le h' (Suc i) phs"
proof -
  have "write_file_at fs mbn (offset (get_phdr_info lay native_le ph le)) seg =
      Inr (fs(mbn \<mapsto> write_at (contents fs mbn) (offset (get_phdr_info lay native_le ph le)) seg))"
    using assms(3) by (simp add: write_file_at_Inr)
  then show ?thesis
    using assms(1,2) by (simp add: Let_def)
qed


lemma detect_elf_format_class:
  "detect_elf_format f = Inr format \<Longrightarrow>
     elf_class format = ELFCLASS32 \<or> elf_class format = ELFCLASS64"
  by (auto simp: detect_elf_format_def split: sum.splits if_splits)

lemma detect_elf_format_prefix:
  assumes "take EI_NIDENT f = take EI_NIDENT g" "EI_NIDENT \<le> length f" "EI_NIDENT \<le> length g"
  shows "detect_elf_format f = detect_elf_format g"
  using assms by (simp add: detect_elf_format_def read_file_at_def)

lemma elf_parse_SomeI:
  assumes "detect_elf_format M = Inr format"
    and "read_elf_header (if elf_class format = ELFCLASS32 then Elf32 else Elf64) M = Inr ehdr"
    and "read_program_headers (if elf_class format = ELFCLASS32 then Elf32 else Elf64)
           native_le M ehdr (is_little_endian format) = Inr phdrs"
  shows "elf_parse native_le M =
     Some (if elf_class format = ELFCLASS32 then Elf32 else Elf64, is_little_endian format,
           ehdr, phdrs)"
  using assms by (simp add: elf_parse_def Let_def)

lemma elf_parse_SomeD:
  assumes "elf_parse native_le M = Some (lay, le, ehdr, phdrs)"
  shows "\<exists>format. detect_elf_format M = Inr format \<and>
        lay = (if elf_class format = ELFCLASS32 then Elf32 else Elf64) \<and>
        le = is_little_endian format"
    and "read_elf_header lay M = Inr ehdr"
    and "read_program_headers lay native_le M ehdr le = Inr phdrs"
proof -
  from assms obtain format where f: "detect_elf_format M = Inr format"
    by (cases "detect_elf_format M") (simp_all add: elf_parse_def)
  let ?lay = "if elf_class format = ELFCLASS32 then Elf32 else Elf64"
  let ?le = "is_little_endian format"
  from assms f obtain eh where eh: "read_elf_header ?lay M = Inr eh"
    by (cases "read_elf_header ?lay M") (simp_all add: elf_parse_def Let_def)
  from assms f eh obtain phs where phs: "read_program_headers ?lay native_le M eh ?le = Inr phs"
    by (cases "read_program_headers ?lay native_le M eh ?le") (simp_all add: elf_parse_def Let_def)
  from assms have eq: "lay = ?lay" "le = ?le" "ehdr = eh" "phdrs = phs"
    unfolding elf_parse_SomeI [OF f eh phs] by simp_all
  show "\<exists>format. detect_elf_format M = Inr format \<and>
        lay = (if elf_class format = ELFCLASS32 then Elf32 else Elf64) \<and>
        le = is_little_endian format"
    using f eq by blast
  show "read_elf_header lay M = Inr ehdr" using eh eq by simp
  show "read_program_headers lay native_le M ehdr le = Inr phdrs" using phs eq by simp
qed

lemma agrees_on_empty: "agrees_on M [] {}"
  by (simp add: agrees_on_def)

lemma place_headers:
  assumes "read_elf_header lay M = Inr ehdr"
    and "read_program_headers lay native_le M ehdr le = Inr phdrs"
    and "contents fs out = []"
  shows "\<exists>fs1 fs2. write_file_at fs out 0 ehdr = Inr fs1 \<and>
     write_phdr_entries lay fs1 out (e_phoff lay native_le ehdr le) 0 phdrs = Inr fs2 \<and>
     (\<forall>p. p \<noteq> out \<longrightarrow> fs2 p = fs p) \<and>
     agrees_on M (contents fs2 out)
       (header_region lay (e_phoff lay native_le ehdr le) (length phdrs)) \<and>
     length (contents fs2 out) =
       (if phdrs = [] then sizeof_Ehdr lay
        else max (sizeof_Ehdr lay) (e_phoff lay native_le ehdr le + length phdrs * sizeof_Phdr lay))"
proof -
  let ?E = "sizeof_Ehdr lay" and ?P = "sizeof_Phdr lay"
  let ?phoff = "e_phoff lay native_le ehdr le"
  from assms(1) have E: "?E < streamoff_limit" "?E \<le> length M" and ehdr: "ehdr = take ?E (drop 0 M)"
    by (simp_all add: read_elf_header_def read_struct_at_Inr)
  have Epos: "0 < ?E" using sizeof_Ehdr_bounds(1) [of lay] by simp
  have lehdr: "length ehdr = ?E" using ehdr E(2) by simp
  let ?c1 = "write_at [] 0 ehdr"
  let ?fs1 = "fs(out \<mapsto> ?c1)"
  have w1: "write_file_at fs out 0 ehdr = Inr ?fs1"
    using E(1) lehdr assms(3) by (simp add: write_file_at_Inr)
  have ag1: "agrees_on M ?c1 {0..<?E}"
    using agrees_on_write [OF agrees_on_empty, of 0 ?E M] E(2) Epos ehdr by simp
  have "ehdr \<noteq> []" using lehdr Epos by auto
  from write_at_length [OF this, of "[]" 0] have l1: "length ?c1 = ?E" using lehdr by simp
  have c1: "contents ?fs1 out = ?c1" by simp
  show ?thesis
  proof (cases "phdrs = []")
    case True
    then show ?thesis
      using w1 ag1 l1 by (simp add: header_region_def)
  next
    case False
    then have n: "0 < length phdrs" by simp
    then have last: "length phdrs - 1 < length phdrs" by simp
    have idx: "?phoff + (length phdrs - 1) * ?P + ?P = ?phoff + (0 + length phdrs) * ?P"
      using n by (cases "length phdrs") simp_all
    from read_program_headers_offsets(1,2) [OF assms(2) last]
    have b: "?phoff + (0 + length phdrs) * ?P \<le> length M"
      "?phoff + (0 + length phdrs) * ?P < streamoff_limit"
      unfolding idx by simp_all
    have sl: "\<forall>k<length phdrs. phdrs ! k = take ?P (drop (?phoff + (0 + k) * ?P) M)"
      using read_program_headers_offsets(3) [OF assms(2)] by simp
    from write_phdr_entries_agrees [of M ?fs1 out "{0..<?E}" ?phoff 0 phdrs lay,
        unfolded c1, OF ag1 b sl]
    obtain fs2 where fs2: "write_phdr_entries lay ?fs1 out ?phoff 0 phdrs = Inr fs2"
      "\<forall>p. p \<noteq> out \<longrightarrow> fs2 p = ?fs1 p"
      "agrees_on M (contents fs2 out) ({0..<?E} \<union> {?phoff + 0 * ?P ..< ?phoff + (0 + length phdrs) * ?P})"
      "length (contents fs2 out) =
         (if phdrs = [] then length ?c1 else max (length ?c1) (?phoff + (0 + length phdrs) * ?P))"
      by blast
    have "\<forall>p. p \<noteq> out \<longrightarrow> fs2 p = fs p" using fs2(2) by simp
    moreover have "agrees_on M (contents fs2 out) (header_region lay ?phoff (length phdrs))"
      using fs2(3) n by (simp add: header_region_def)
    moreover have "length (contents fs2 out) = max ?E (?phoff + length phdrs * ?P)"
      using fs2(4) False l1 by simp
    ultimately show ?thesis using w1 fs2(1) False by auto
  qed
qed

lemma split_impl_Inr:
  assumes "split_impl lay native_le fs mbn mdt_path le = Inr fs'"
    and "contents fs mdt_path = []"
  shows "\<exists>ehdr phdrs fs2.
     read_elf_header lay (contents fs mbn) = Inr ehdr \<and>
     read_program_headers lay native_le (contents fs mbn) ehdr le = Inr phdrs \<and>
     (\<forall>p. p \<noteq> mdt_path \<longrightarrow> fs2 p = fs p) \<and>
     agrees_on (contents fs mbn) (contents fs2 mdt_path)
       (header_region lay (e_phoff lay native_le ehdr le) (length phdrs)) \<and>
     length (contents fs2 mdt_path) =
       (if phdrs = [] then sizeof_Ehdr lay
        else max (sizeof_Ehdr lay) (e_phoff lay native_le ehdr le + length phdrs * sizeof_Phdr lay)) \<and>
     split_segments lay native_le fs2 mbn mdt_path le 0 phdrs = Inr fs'"
proof -
  from assms(1) obtain ehdr where eh: "read_elf_header lay (contents fs mbn) = Inr ehdr"
    by (cases "read_elf_header lay (contents fs mbn)") (simp_all add: split_impl_def)
  from assms(1) eh obtain phdrs where
    ph: "read_program_headers lay native_le (contents fs mbn) ehdr le = Inr phdrs"
    by (cases "read_program_headers lay native_le (contents fs mbn) ehdr le")
      (simp_all add: split_impl_def)
  from place_headers [OF eh ph assms(2)] obtain fs1 fs2 where
    w: "write_file_at fs mdt_path 0 ehdr = Inr fs1"
      "write_phdr_entries lay fs1 mdt_path (e_phoff lay native_le ehdr le) 0 phdrs = Inr fs2"
    and pl: "\<forall>p. p \<noteq> mdt_path \<longrightarrow> fs2 p = fs p"
      "agrees_on (contents fs mbn) (contents fs2 mdt_path)
         (header_region lay (e_phoff lay native_le ehdr le) (length phdrs))"
      "length (contents fs2 mdt_path) =
        (if phdrs = [] then sizeof_Ehdr lay
         else max (sizeof_Ehdr lay) (e_phoff lay native_le ehdr le + length phdrs * sizeof_Phdr lay))"
    by blast
  have "split_segments lay native_le fs2 mbn mdt_path le 0 phdrs = Inr fs'"
    using assms(1) eh ph w by (simp add: split_impl_def)
  with eh ph pl show ?thesis by blast
qed

lemma split_Inr:
  assumes "split native_le fs mbn_path mdt_path = Inr fs'"
    and "fs mbn_path = Some M"
    and "mbn_path \<noteq> mdt_path"
  shows "\<exists>lay le ehdr phdrs fs2.
     extension mdt_path = ''.mdt'' \<and>
     elf_parse native_le M = Some (lay, le, ehdr, phdrs) \<and>
     fs2 mbn_path = Some M \<and>
     (\<forall>p. p \<noteq> mdt_path \<longrightarrow> fs2 p = fs p) \<and>
     agrees_on M (contents fs2 mdt_path)
       (header_region lay (e_phoff lay native_le ehdr le) (length phdrs)) \<and>
     length (contents fs2 mdt_path) =
       (if phdrs = [] then sizeof_Ehdr lay
        else max (sizeof_Ehdr lay) (e_phoff lay native_le ehdr le + length phdrs * sizeof_Phdr lay)) \<and>
     split_segments lay native_le fs2 mbn_path mdt_path le 0 phdrs = Inr fs'"
proof -
  let ?fs1 = "fs(mdt_path \<mapsto> [])"
  have ext: "extension mdt_path = ''.mdt''"
    using assms(1) by (auto simp: split_def split: if_splits)
  have M1: "contents ?fs1 mbn_path = M"
    using assms(2,3) by (simp add: contents_def)
  have D1: "contents ?fs1 mdt_path = []" by simp
  from assms(1,2) ext M1 obtain format where f: "detect_elf_format M = Inr format"
    by (cases "detect_elf_format M") (simp_all add: split_def)
  let ?lay = "if elf_class format = ELFCLASS32 then Elf32 else Elf64"
  let ?le = "is_little_endian format"
  have impl: "split_impl ?lay native_le ?fs1 mbn_path mdt_path ?le = Inr fs'"
    using assms(1,2) ext M1 f detect_elf_format_class [OF f]
    by (auto simp: split_def)
  from split_impl_Inr [OF impl D1, unfolded M1] obtain ehdr phdrs fs2 where
    r: "read_elf_header ?lay M = Inr ehdr"
      "read_program_headers ?lay native_le M ehdr ?le = Inr phdrs"
    and fr: "\<forall>p. p \<noteq> mdt_path \<longrightarrow> fs2 p = ?fs1 p"
    and pl: "agrees_on M (contents fs2 mdt_path)
         (header_region ?lay (e_phoff ?lay native_le ehdr ?le) (length phdrs))"
      "length (contents fs2 mdt_path) =
        (if phdrs = [] then sizeof_Ehdr ?lay
         else max (sizeof_Ehdr ?lay) (e_phoff ?lay native_le ehdr ?le + length phdrs * sizeof_Phdr ?lay))"
      "split_segments ?lay native_le fs2 mbn_path mdt_path ?le 0 phdrs = Inr fs'"
    by blast
  have fr': "\<forall>p. p \<noteq> mdt_path \<longrightarrow> fs2 p = fs p" using fr by simp
  then have "fs2 mbn_path = Some M" using assms(2,3) by simp
  with ext elf_parse_SomeI [OF f r] fr' pl show ?thesis by blast
qed



text \<open>
  Claim C8. When the extension of the mdt path is not \<open>.mdt\<close>, both \<open>split\<close> and \<open>squash\<close>
  fail with the naming error, and the file system at the failure is the one they were
  started on: no file has been created, truncated or written.
\<close>

theorem wrong_extension_rejected_first:
  "extension mdt_path \<noteq> ''.mdt'' \<Longrightarrow>
     split native_le fs mbn_path mdt_path = Inl (NotMdtFile mdt_path, fs) \<and>
     squash native_le fs mdt_path mbn_path = Inl (NotMdtFile mdt_path, fs)"
  by (simp add: split_def squash_def)

lemma extension_fw_bin: "extension ''fw.bin'' = ''.bin''"
  by (simp add: extension_def filename_def)

theorem wrong_extension_rejected_first_witness:
  "extension ''fw.bin'' \<noteq> ''.mdt'' \<and>
   split True Map.empty ''fw.mbn'' ''fw.bin'' = Inl (NotMdtFile ''fw.bin'', Map.empty) \<and>
   squash True Map.empty ''fw.bin'' ''fw.mbn'' = Inl (NotMdtFile ''fw.bin'', Map.empty)"
  using wrong_extension_rejected_first [of "''fw.bin''" True Map.empty "''fw.mbn''"]
  by (simp add: extension_fw_bin)





lemmas elf_consts = EI_NIDENT_def streamoff_limit_def size_t_range_def SELFMAG_def ELFMAG_def
  EI_DATA_def EI_CLASS_def ELFCLASS32_def ELFCLASS64_def ELFDATA2LSB_def ELFDATA2MSB_def

lemmas decode_defs = member_def native_word_def from_file_endian32_def byteswap32_def
  from_file_endian16_def byteswap16_def from_file_endian64_def byteswap64_def
  is_pil_hash_segment_def PIL_SEGMENT_TYPE_SHIFT_def PIL_SEGMENT_TYPE_MASK_def
  PIL_SEGMENT_TYPE_HASH_def

lemmas io_defs = read_file_at_def read_struct_at_def write_at_def write_file_at_def
  append_to_file_def contents_def read_elf_header_def read_program_headers_def
  write_segment_file_def read_segment_data_def

lemmas path_defs = extension_def filename_def replace_extension_def bxx_extension_def
  digit_char_def decimal.simps

lemma extension_fw_mdt: "extension ''fw.mdt'' = ''.mdt''"
  by (simp add: path_defs)

lemma bxx_path_fw:
  "bxx_path ''fw.mdt'' 0 = ''fw.b00''"
  "bxx_path ''fw.mdt'' (Suc 0) = ''fw.b01''"
  by (simp_all add: path_defs)



lemma example_two_segments_info:
  "get_phdr_info Elf32 True (take 32 (drop 52 example_two_segments)) True =
     \<lparr>offset = 116, filesz = 2, flags = 0x02000000\<rparr>"
  "get_phdr_info Elf32 True (take 32 (drop 84 example_two_segments)) True =
     \<lparr>offset = 118, filesz = 2, flags = 0\<rparr>"
  by (simp_all add: example_two_segments_def decode_defs)






text \<open>
  Claim C7. A program header whose \<open>p_filesz\<close> is 0 is passed over by both loops: the
  iteration for it leaves the file system (and, in \<open>squash\<close>, the hash cursor) as they are,
  so \<open>split\<close> opens no \<open>.bNN\<close> file and appends nothing to the mdt, and \<open>squash\<close> reads
  and writes nothing. Over a whole run of \<open>split\<close>'s loop, the \<open>.bNN\<close> path of that index
  holds at the end what it held at the start.
\<close>

theorem zero_filesz_segment_skipped:
  assumes "filesz (get_phdr_info lay native_le phdr le) = 0"
  shows "split_segments lay native_le fs mbn mdt_path le i (phdr # phdrs) =
           split_segments lay native_le fs mbn mdt_path le (Suc i) phdrs \<and>
         squash_segments lay native_le fs mdt_path mbn le h i (phdr # phdrs) =
           squash_segments lay native_le fs mdt_path mbn le h (Suc i) phdrs \<and>
         (\<forall>fs'. split_segments lay native_le fs mbn mdt_path le i (before @ phdr # phdrs) = Inr fs'
             \<longrightarrow> extension mdt_path = ''.mdt''
             \<longrightarrow> fs' (bxx_path mdt_path (i + length before))
                   = fs (bxx_path mdt_path (i + length before)))"
proof (intro conjI allI impI)
  show "split_segments lay native_le fs mbn mdt_path le i (phdr # phdrs) =
      split_segments lay native_le fs mbn mdt_path le (Suc i) phdrs"
    using assms by (rule split_segments_skip)
  show "squash_segments lay native_le fs mdt_path mbn le h i (phdr # phdrs) =
      squash_segments lay native_le fs mdt_path mbn le h (Suc i) phdrs"
    using assms by (rule squash_segments_skip)
next
  fix fs'
  assume run: "split_segments lay native_le fs mbn mdt_path le i (before @ phdr # phdrs) = Inr fs'"
    and ext: "extension mdt_path = ''.mdt''"
  let ?p = "bxx_path mdt_path (i + length before)"
  show "fs' ?p = fs ?p"
  proof (rule split_segments_frame [OF run])
    show "?p \<noteq> mdt_path" using bxx_path_neq_mdt [OF ext] .
    show "\<forall>k<length (before @ phdr # phdrs).
        filesz (get_phdr_info lay native_le ((before @ phdr # phdrs) ! k) le) \<noteq> 0
          \<longrightarrow> ?p \<noteq> bxx_path mdt_path (i + k)"
    proof (intro allI impI notI)
      fix k
      assume ne: "filesz (get_phdr_info lay native_le ((before @ phdr # phdrs) ! k) le) \<noteq> 0"
        and eq: "?p = bxx_path mdt_path (i + k)"
      from bxx_path_inj [OF eq] have "k = length before" by simp
      with ne assms show False by simp
    qed
  qed
qed

lemma zero_phdr_filesz:
  "filesz (get_phdr_info Elf32 True
     [0, 0, 0, 0, 0, 0, 0, 0, 0, 0, 0, 0, 0, 0, 0, 0,
      0, 0, 0, 0, 0, 0, 0, 0, 0, 0, 0, 0, 0, 0, 0, 0] True) = 0"
  by (simp add: decode_defs)

theorem zero_filesz_segment_skipped_witness:
  "filesz (get_phdr_info Elf32 True
     [0, 0, 0, 0, 0, 0, 0, 0, 0, 0, 0, 0, 0, 0, 0, 0,
      0, 0, 0, 0, 0, 0, 0, 0, 0, 0, 0, 0, 0, 0, 0, 0] True) = 0 \<and>
   split_segments Elf32 True Map.empty ''fw.mbn'' ''fw.mdt'' True 0
     [[0, 0, 0, 0, 0, 0, 0, 0, 0, 0, 0, 0, 0, 0, 0, 0,
       0, 0, 0, 0, 0, 0, 0, 0, 0, 0, 0, 0, 0, 0, 0, 0]] = Inr Map.empty \<and>
   squash_segments Elf32 True Map.empty ''fw.mdt'' ''out.mbn'' True 7 0
     [[0, 0, 0, 0, 0, 0, 0, 0, 0, 0, 0, 0, 0, 0, 0, 0,
       0, 0, 0, 0, 0, 0, 0, 0, 0, 0, 0, 0, 0, 0, 0, 0]] = Inr (Map.empty, 7)"
  using zero_filesz_segment_skipped [OF zero_phdr_filesz,
      where fs = Map.empty and mbn = "''fw.mbn''" and mdt_path = "''fw.mdt''" and i = 0
        and phdrs = "[]" and h = 7 and before = "[]"]
    zero_phdr_filesz
  by simp

lemma hash_bytes_Nil [simp]: "hash_bytes lay native_le le [] = 0"
  by (simp add: hash_bytes_def)





lemma read_segment_data_length:
  assumes "read_segment_data fs mdt_path i n is_hash h = Inr (seg, h')"
  shows "length seg = n"
  using assms
  by (auto simp: read_segment_data_def Let_def read_file_at_Inr split: option.splits sum.splits if_splits)

lemma read_segment_data_error:
  assumes "read_segment_data fs mdt_path i n is_hash h = Inl e"
  shows "e \<noteq> IndexOutOfRange"
  using assms
  by (auto simp: read_segment_data_def Let_def read_file_at_def
      split: option.splits sum.splits if_splits)

text \<open>One iteration of \<open>squash\<close>'s loop that succeeds on a segment that is not empty.\<close>

lemma squash_segments_step_Inr:
  assumes "squash_segments lay native_le fs mdt_path mbn le h i (ph # phs) = Inr (fs', hend)"
    and "filesz (get_phdr_info lay native_le ph le) \<noteq> 0"
  shows "\<exists>seg h'.
     read_segment_data fs mdt_path i (filesz (get_phdr_info lay native_le ph le))
       (is_pil_hash_segment (flags (get_phdr_info lay native_le ph le))) h = Inr (seg, h') \<and>
     offset (get_phdr_info lay native_le ph le) + length seg < streamoff_limit \<and>
     squash_segments lay native_le
       (fs(mbn \<mapsto> write_at (contents fs mbn) (offset (get_phdr_info lay native_le ph le)) seg))
       mdt_path mbn le h' (Suc i) phs = Inr (fs', hend)"
proof -
  let ?info = "get_phdr_info lay native_le ph le"
  from assms obtain seg h' where
    rd: "read_segment_data fs mdt_path i (filesz ?info) (is_pil_hash_segment (flags ?info)) h
          = Inr (seg, h')"
    by (cases "read_segment_data fs mdt_path i (filesz ?info)
          (is_pil_hash_segment (flags ?info)) h") (auto simp: Let_def)
  from assms rd obtain fs1 where w: "write_file_at fs mbn (offset ?info) seg = Inr fs1"
    by (cases "write_file_at fs mbn (offset ?info) seg") (auto simp: Let_def)
  then have ol: "offset ?info + length seg < streamoff_limit"
    by (simp add: write_file_at_Inr)
  from squash_segments_step [OF assms(2) rd ol, of mbn phs] assms(1) rd ol
  show ?thesis by auto
qed

lemma squash_segments_error:
  assumes "squash_segments lay native_le fs mdt_path mbn le h i phdrs = Inl (e, fs')"
  shows "e \<noteq> IndexOutOfRange"
  using assms
proof (induction phdrs arbitrary: fs h i)
  case Nil
  then show ?case by simp
next
  case (Cons ph phs)
  let ?info = "get_phdr_info lay native_le ph le"
  show ?case
  proof (cases "filesz ?info = 0")
    case True
    with Cons.prems have "squash_segments lay native_le fs mdt_path mbn le h (Suc i) phs = Inl (e, fs')"
      by simp
    then show ?thesis by (rule Cons.IH)
  next
    case False
    show ?thesis
    proof (cases "read_segment_data fs mdt_path i (filesz ?info)
          (is_pil_hash_segment (flags ?info)) h")
      case (Inl e')
      with Cons.prems False have "e = e'" by (simp add: Let_def)
      with read_segment_data_error [OF Inl] show ?thesis by simp
    next
      case (Inr r)
      obtain seg h' where r: "r = (seg, h')" by (cases r)
      show ?thesis
      proof (cases "offset ?info + length seg < streamoff_limit")
        case True
        note eq = squash_segments_step [OF \<open>filesz ?info \<noteq> 0\<close> Inr [unfolded r] True, of mbn phs]
        from Cons.prems have "squash_segments lay native_le
            (fs(mbn \<mapsto> write_at (contents fs mbn) (offset ?info) seg))
            mdt_path mbn le h' (Suc i) phs = Inl (e, fs')"
          unfolding eq .
        then show ?thesis by (rule Cons.IH)
      next
        case False
        then have "write_file_at fs mbn (offset ?info) seg = Inl (IosFailure, fs)"
          by (simp add: write_file_at_def)
        with Cons.prems Inr r \<open>filesz ?info \<noteq> 0\<close> show ?thesis
          by (simp add: Let_def)
      qed
    qed
  qed
qed



lemma squash_impl_Inr:
  assumes "squash_impl lay native_le fs mdt_path mbn le = Inr fs'"
  shows "\<exists>ehdr phdrs fs1 fs2 hend.
     read_elf_header lay (contents fs mdt_path) = Inr ehdr \<and>
     read_program_headers lay native_le (contents fs mdt_path) ehdr le = Inr phdrs \<and>
     write_file_at fs mbn 0 ehdr = Inr fs1 \<and>
     write_phdr_entries lay fs1 mbn (e_phoff lay native_le ehdr le) 0 phdrs = Inr fs2 \<and>
     phdrs \<noteq> [] \<and>
     squash_segments lay native_le fs2 mdt_path mbn le
       (filesz (get_phdr_info lay native_le (hd phdrs) le)) 0 phdrs = Inr (fs', hend)"
proof -
  from assms obtain ehdr where eh: "read_elf_header lay (contents fs mdt_path) = Inr ehdr"
    by (cases "read_elf_header lay (contents fs mdt_path)") (simp_all add: squash_impl_def)
  from assms eh obtain phdrs where
    ph: "read_program_headers lay native_le (contents fs mdt_path) ehdr le = Inr phdrs"
    by (cases "read_program_headers lay native_le (contents fs mdt_path) ehdr le")
      (simp_all add: squash_impl_def)
  from assms eh ph obtain fs1 where w1: "write_file_at fs mbn 0 ehdr = Inr fs1"
    by (cases "write_file_at fs mbn 0 ehdr") (simp_all add: squash_impl_def)
  from assms eh ph w1 obtain fs2 where
    w2: "write_phdr_entries lay fs1 mbn (e_phoff lay native_le ehdr le) 0 phdrs = Inr fs2"
    by (cases "write_phdr_entries lay fs1 mbn (e_phoff lay native_le ehdr le) 0 phdrs")
      (simp_all add: squash_impl_def)
  from assms eh ph w1 w2 obtain ph0 phs where ne: "phdrs = ph0 # phs"
    by (cases phdrs) (simp_all add: squash_impl_def)
  from assms eh ph w1 w2 ne obtain r where
    run: "squash_segments lay native_le fs2 mdt_path mbn le
       (filesz (get_phdr_info lay native_le ph0 le)) 0 phdrs = Inr r" and "fs' = fst r"
    by (cases "squash_segments lay native_le fs2 mdt_path mbn le
       (filesz (get_phdr_info lay native_le ph0 le)) 0 (ph0 # phs)")
      (auto simp add: squash_impl_def split: prod.splits)
  then have "squash_segments lay native_le fs2 mdt_path mbn le
       (filesz (get_phdr_info lay native_le (hd phdrs) le)) 0 phdrs = Inr (fs', snd r)"
    using ne by simp
  with eh ph w1 w2 ne show ?thesis by blast
qed




text \<open>
  Claim C10. \<open>squash_impl\<close> takes \<open>phdrs[0]\<close> without looking at the length of the table.
  The run reaches that access on an empty table, and so the error branch of the model,
  exactly when the ELF header can be read and its \<open>e_phnum\<close> is 0; with \<open>e_phnum \<ge> 1\<close>
  the run never reaches it.
\<close>

theorem squash_reads_program_header_0:
  "(\<exists>fs'. squash_impl lay native_le fs mdt_path mbn le = Inl (IndexOutOfRange, fs')) \<longleftrightarrow>
   (\<exists>ehdr. read_elf_header lay (contents fs mdt_path) = Inr ehdr \<and>
           e_phnum lay native_le ehdr le = 0)"
proof
  assume "\<exists>fs'. squash_impl lay native_le fs mdt_path mbn le = Inl (IndexOutOfRange, fs')"
  then obtain fs' where err: "squash_impl lay native_le fs mdt_path mbn le = Inl (IndexOutOfRange, fs')"
    by blast
  from err obtain ehdr where eh: "read_elf_header lay (contents fs mdt_path) = Inr ehdr"
    by (cases "read_elf_header lay (contents fs mdt_path)")
      (auto simp: squash_impl_def read_elf_header_def read_struct_at_def split: if_splits)
  have rderr: "e \<noteq> IndexOutOfRange"
    if "read_program_headers lay native_le g ehdr le = Inl e" for e g
  proof -
    have "read_phdr_entries lay f phoff is = Inl e \<Longrightarrow> e \<noteq> IndexOutOfRange" for f phoff "is"
      by (induction "is") (auto simp: read_struct_at_def split: if_splits sum.splits)
    then show ?thesis using that by (simp add: read_program_headers_def Let_def)
  qed
  from err eh obtain phdrs where
    ph: "read_program_headers lay native_le (contents fs mdt_path) ehdr le = Inr phdrs"
    by (cases "read_program_headers lay native_le (contents fs mdt_path) ehdr le")
      (auto simp: squash_impl_def dest: rderr)
  have werr: "write_file_at g p off d = Inl (e, g') \<Longrightarrow> e \<noteq> IndexOutOfRange" for g p off d e g'
    by (auto simp: write_file_at_def split: if_splits)
  from err eh ph obtain fs1 where w1: "write_file_at fs mbn 0 ehdr = Inr fs1"
    by (cases "write_file_at fs mbn 0 ehdr") (auto simp: squash_impl_def dest: werr)
  have wperr: "write_phdr_entries lay g p phoff i phs = Inl (e, g') \<Longrightarrow> e \<noteq> IndexOutOfRange"
    for g p phoff i phs e g'
    by (induction phs arbitrary: g i) (auto simp: write_file_at_def split: if_splits sum.splits)
  from err eh ph w1 obtain fs2 where
    w2: "write_phdr_entries lay fs1 mbn (e_phoff lay native_le ehdr le) 0 phdrs = Inr fs2"
    by (cases "write_phdr_entries lay fs1 mbn (e_phoff lay native_le ehdr le) 0 phdrs")
      (auto simp: squash_impl_def dest: wperr)
  have "phdrs = []"
  proof (cases phdrs)
    case Nil
    then show ?thesis .
  next
    case (Cons ph0 phs)
    with err eh ph w1 w2 have "\<exists>g. squash_segments lay native_le fs2 mdt_path mbn le
        (filesz (get_phdr_info lay native_le ph0 le)) 0 (ph0 # phs) = Inl (IndexOutOfRange, g)"
      by (auto simp: squash_impl_def split: sum.splits prod.splits)
    then show ?thesis using squash_segments_error by blast
  qed
  then have "e_phnum lay native_le ehdr le = 0"
    using ph by (simp add: read_program_headers_Inr)
  with eh show "\<exists>ehdr. read_elf_header lay (contents fs mdt_path) = Inr ehdr \<and>
           e_phnum lay native_le ehdr le = 0"
    by blast
next
  assume "\<exists>ehdr. read_elf_header lay (contents fs mdt_path) = Inr ehdr \<and>
           e_phnum lay native_le ehdr le = 0"
  then obtain ehdr where eh: "read_elf_header lay (contents fs mdt_path) = Inr ehdr"
    and n: "e_phnum lay native_le ehdr le = 0"
    by blast
  have ph: "read_program_headers lay native_le (contents fs mdt_path) ehdr le = Inr []"
    using n by (simp add: read_program_headers_def)
  from eh have "length ehdr = sizeof_Ehdr lay" "sizeof_Ehdr lay < streamoff_limit"
    by (auto simp: read_elf_header_def read_struct_at_Inr)
  then have w1: "write_file_at fs mbn 0 ehdr = Inr (fs(mbn \<mapsto> write_at (contents fs mbn) 0 ehdr))"
    by (simp add: write_file_at_Inr)
  show "\<exists>fs'. squash_impl lay native_le fs mdt_path mbn le = Inl (IndexOutOfRange, fs')"
    using eh ph w1 by (simp add: squash_impl_def)
qed

lemma read_struct_at_agrees:
  assumes "agrees_on M P0 W" "{off..<off + n} \<subseteq> W" "0 < n"
    and "read_struct_at M off n = Inr x"
  shows "read_struct_at (P0 @ HS) off n = Inr x"
proof -
  from agrees_on_slice [OF assms(1-3)] have le: "off + n \<le> length P0"
    and eq: "take n (drop off P0) = take n (drop off M)" by simp_all
  from assms(4) have lim: "off + n < streamoff_limit" and x: "x = take n (drop off M)"
    by (simp_all add: read_struct_at_Inr)
  have "take n (drop off (P0 @ HS)) = take n (drop off P0)"
    using le by simp
  then show ?thesis
    using le lim eq x by (simp add: read_struct_at_Inr)
qed

lemma header_region_ehdr: "{0..<0 + sizeof_Ehdr lay} \<subseteq> header_region lay phoff n"
  by (auto simp: header_region_def)

lemma header_region_ident: "{0..<0 + EI_NIDENT} \<subseteq> header_region lay phoff n"
  using sizeof_Ehdr_bounds(1) [of lay] by (auto simp: header_region_def EI_NIDENT_def)

lemma header_region_phdr:
  assumes "k < n"
  shows "{phoff + k * sizeof_Phdr lay ..< phoff + k * sizeof_Phdr lay + sizeof_Phdr lay}
           \<subseteq> header_region lay phoff n"
proof -
  have "Suc k \<le> n" using assms by simp
  then have "Suc k * sizeof_Phdr lay \<le> n * sizeof_Phdr lay"
    by (rule mult_le_mono1)
  then have "phoff + k * sizeof_Phdr lay + sizeof_Phdr lay \<le> phoff + n * sizeof_Phdr lay"
    by simp
  then show ?thesis using assms by (auto simp: header_region_def)
qed

text \<open>An mdt that starts with the header region of \<open>M\<close> parses to the same table.\<close>

lemma elf_parse_agrees:
  assumes "elf_parse native_le M = Some (lay, le, ehdr, phdrs)"
    and "agrees_on M P0 (header_region lay (e_phoff lay native_le ehdr le) (length phdrs))"
  shows "\<exists>format. detect_elf_format (P0 @ HS) = Inr format \<and>
            lay = (if elf_class format = ELFCLASS32 then Elf32 else Elf64) \<and>
            le = is_little_endian format"
    and "read_elf_header lay (P0 @ HS) = Inr ehdr"
    and "read_program_headers lay native_le (P0 @ HS) ehdr le = Inr phdrs"
proof -
  let ?phoff = "e_phoff lay native_le ehdr le" and ?P = "sizeof_Phdr lay"
  note d = elf_parse_SomeD [OF assms(1)]
  from d(1) obtain format where f: "detect_elf_format M = Inr format"
    and lay: "lay = (if elf_class format = ELFCLASS32 then Elf32 else Elf64)"
    and le: "le = is_little_endian format"
    by blast
  have idpos: "0 < EI_NIDENT" by (simp add: EI_NIDENT_def)
  from agrees_on_slice [OF assms(2) header_region_ident idpos]
  have i1: "EI_NIDENT \<le> length P0" and i2: "take EI_NIDENT P0 = take EI_NIDENT M"
    by simp_all
  have i3: "EI_NIDENT \<le> length M"
    using i1 assms(2) by (simp add: agrees_on_def)
  have "detect_elf_format (P0 @ HS) = detect_elf_format M"
  proof (rule detect_elf_format_prefix)
    show "take EI_NIDENT (P0 @ HS) = take EI_NIDENT M" using i1 i2 by simp
    show "EI_NIDENT \<le> length (P0 @ HS)" using i1 by simp
    show "EI_NIDENT \<le> length M" by (rule i3)
  qed
  with f lay le show "\<exists>format. detect_elf_format (P0 @ HS) = Inr format \<and>
            lay = (if elf_class format = ELFCLASS32 then Elf32 else Elf64) \<and>
            le = is_little_endian format"
    by auto
  have Epos: "0 < sizeof_Ehdr lay" using sizeof_Ehdr_bounds(1) [of lay] by simp
  show "read_elf_header lay (P0 @ HS) = Inr ehdr"
    unfolding read_elf_header_def
    using assms(2) header_region_ehdr Epos d(2) [unfolded read_elf_header_def]
    by (rule read_struct_at_agrees)
  show "read_program_headers lay native_le (P0 @ HS) ehdr le = Inr phdrs"
    unfolding read_program_headers_Inr
  proof (intro conjI allI impI)
    show "length phdrs = e_phnum lay native_le ehdr le"
      using d(3) by (simp add: read_program_headers_Inr)
    fix k assume k: "k < length phdrs"
    note o = read_program_headers_offsets [OF d(3) k]
    have rd: "read_struct_at M (?phoff + k * ?P) ?P = Inr (phdrs ! k)"
      using o by (simp add: read_struct_at_Inr)
    show "read_struct_at (P0 @ HS) ((?phoff + k * ?P) mod size_t_range) ?P = Inr (phdrs ! k)"
      unfolding o(4)
      using assms(2) header_region_phdr [OF k] sizeof_Phdr_bounds(1) rd
      by (rule read_struct_at_agrees)
  qed
qed


lemma squash_eq_impl:
  assumes "extension mdt_path = ''.mdt''"
    and "fs mdt_path = Some D"
    and "out \<noteq> mdt_path"
    and "detect_elf_format D = Inr format"
  shows "squash native_le fs mdt_path out =
     squash_impl (if elf_class format = ELFCLASS32 then Elf32 else Elf64) native_le
       (fs(out \<mapsto> [])) mdt_path out (is_little_endian format)"
proof -
  have "contents (fs(out \<mapsto> [])) mdt_path = D"
    using assms(2,3) by (simp add: contents_def)
  then show ?thesis
    using assms(1,2,4) detect_elf_format_class [OF assms(4)]
    by (auto simp: squash_def)
qed



lemmas run_defs = split_def split_impl_def squash_def squash_impl_def detect_elf_format_def
  extension_fw_mdt elf_consts decode_defs io_defs upt_rec Let_def












theorem squash_reads_program_header_0_witness:
  "read_elf_header Elf32 (contents [''fw.mdt'' \<mapsto> example_no_phdrs] ''fw.mdt'')
     = Inr example_no_phdrs \<and>
   e_phnum Elf32 True example_no_phdrs True = 0 \<and>
   (\<exists>fs'. squash_impl Elf32 True [''fw.mdt'' \<mapsto> example_no_phdrs] ''fw.mdt'' ''out.mbn'' True
            = Inl (IndexOutOfRange, fs'))"
proof -
  have eh: "read_elf_header Elf32 (contents [''fw.mdt'' \<mapsto> example_no_phdrs] ''fw.mdt'')
     = Inr example_no_phdrs"
    by (simp add: example_no_phdrs_def io_defs elf_consts)
  have n: "e_phnum Elf32 True example_no_phdrs True = 0"
    by (simp add: example_no_phdrs_def decode_defs)
  from eh n have "\<exists>ehdr. read_elf_header Elf32 (contents [''fw.mdt'' \<mapsto> example_no_phdrs] ''fw.mdt'')
      = Inr ehdr \<and> e_phnum Elf32 True ehdr True = 0"
    by blast
  then have "\<exists>fs'. squash_impl Elf32 True [''fw.mdt'' \<mapsto> example_no_phdrs] ''fw.mdt'' ''out.mbn'' True
            = Inl (IndexOutOfRange, fs')"
    by (rule squash_reads_program_header_0 [THEN iffD2])
  with eh n show ?thesis by blast
qed

lemma split_segments_mdt_prefix:
  assumes "split_segments lay native_le fs mbn mdt_path le i phdrs = Inr fs'"
    and "extension mdt_path = ''.mdt''"
  shows "\<exists>suffix. contents fs' mdt_path = contents fs mdt_path @ suffix"
  using assms(1)
proof (induction phdrs arbitrary: fs i)
  case Nil
  then show ?case by simp
next
  case (Cons ph phs)
  let ?info = "get_phdr_info lay native_le ph le"
  show ?case
  proof (cases "filesz ?info = 0")
    case True
    with Cons.prems have "split_segments lay native_le fs mbn mdt_path le (Suc i) phs = Inr fs'"
      by simp
    then show ?thesis by (rule Cons.IH)
  next
    case False
    have bm: "bxx_path mdt_path i \<noteq> mdt_path" using bxx_path_neq_mdt [OF assms(2)] .
    from split_segments_step [OF Cons.prems False] obtain fs1 where
      run: "split_segments lay native_le fs1 mbn mdt_path le (Suc i) phs = Inr fs'"
      and fs1: "\<exists>s. contents fs1 mdt_path = contents fs mdt_path @ s"
      using bm by (auto split: if_splits)
    from Cons.IH [OF run] fs1 show ?thesis by auto
  qed
qed

lemma split_same_path: "split native_le fs p p \<noteq> Inr fs'"
  by (auto simp: split_def detect_elf_format_def read_file_at_def EI_NIDENT_def
      split: option.splits)

lemma squash_same_path: "squash native_le fs p p \<noteq> Inr fs'"
  by (auto simp: squash_def detect_elf_format_def read_file_at_def EI_NIDENT_def
      split: option.splits)

lemma agrees_on_header_slices:
  assumes "elf_parse native_le M = Some (lay, le, ehdr, phdrs)"
    and "agrees_on M P0 (header_region lay (e_phoff lay native_le ehdr le) (length phdrs))"
  shows "take (sizeof_Ehdr lay) (P0 @ suffix) = ehdr"
    and "\<forall>k<length phdrs.
           take (sizeof_Phdr lay)
             (drop (e_phoff lay native_le ehdr le + k * sizeof_Phdr lay) (P0 @ suffix)) = phdrs ! k"
proof -
  note p = elf_parse_agrees [OF assms, of suffix]
  from p(2) show "take (sizeof_Ehdr lay) (P0 @ suffix) = ehdr"
    by (simp add: read_elf_header_def read_struct_at_Inr)
  show "\<forall>k<length phdrs.
           take (sizeof_Phdr lay)
             (drop (e_phoff lay native_le ehdr le + k * sizeof_Phdr lay) (P0 @ suffix)) = phdrs ! k"
    using read_program_headers_offsets(3) [OF p(3)] by simp
qed

lemma split_header_verbatim:
  assumes "split native_le fs mbn_path mdt_path = Inr fs'"
    and "fs mbn_path = Some M"
    and "elf_parse native_le M = Some (lay, le, ehdr, phdrs)"
  shows "take (sizeof_Ehdr lay) (contents fs' mdt_path) = ehdr"
    and "\<forall>k<length phdrs.
           take (sizeof_Phdr lay)
             (drop (e_phoff lay native_le ehdr le + k * sizeof_Phdr lay) (contents fs' mdt_path))
           = phdrs ! k"
proof -
  have ne: "mbn_path \<noteq> mdt_path"
    using assms(1) split_same_path by blast
  from split_Inr [OF assms(1,2) ne] assms(3) obtain fs2 where
    ext: "extension mdt_path = ''.mdt''"
    and ag: "agrees_on M (contents fs2 mdt_path)
       (header_region lay (e_phoff lay native_le ehdr le) (length phdrs))"
    and run: "split_segments lay native_le fs2 mbn_path mdt_path le 0 phdrs = Inr fs'"
    by auto
  from split_segments_mdt_prefix [OF run ext] obtain suffix where
    c: "contents fs' mdt_path = contents fs2 mdt_path @ suffix" by blast
  show "take (sizeof_Ehdr lay) (contents fs' mdt_path) = ehdr"
    unfolding c by (rule agrees_on_header_slices(1) [OF assms(3) ag])
  show "\<forall>k<length phdrs.
           take (sizeof_Phdr lay)
             (drop (e_phoff lay native_le ehdr le + k * sizeof_Phdr lay) (contents fs' mdt_path))
           = phdrs ! k"
    unfolding c by (rule agrees_on_header_slices(2) [OF assms(3) ag])
qed

lemma squash_segments_untouched:
  assumes "squash_segments lay native_le fs mdt_path out le h i phdrs = Inr (fs', h')"
    and "j < length (contents fs out)"
    and "j \<notin> (\<Union>ph\<in>set phdrs. segment_region (get_phdr_info lay native_le ph le))"
  shows "j < length (contents fs' out) \<and> contents fs' out ! j = contents fs out ! j"
  using assms
proof (induction phdrs arbitrary: fs h i)
  case Nil
  then show ?case by simp
next
  case (Cons ph phs)
  let ?info = "get_phdr_info lay native_le ph le"
  have rest: "j \<notin> (\<Union>ph\<in>set phs. segment_region (get_phdr_info lay native_le ph le))"
    using Cons.prems(3) by simp
  show ?case
  proof (cases "filesz ?info = 0")
    case True
    with Cons.prems(1) have "squash_segments lay native_le fs mdt_path out le h (Suc i) phs = Inr (fs', h')"
      by simp
    from Cons.IH [OF this Cons.prems(2) rest] show ?thesis .
  next
    case False
    from squash_segments_step_Inr [OF Cons.prems(1) False] obtain seg h1 where
      rd: "read_segment_data fs mdt_path i (filesz ?info) (is_pil_hash_segment (flags ?info)) h
            = Inr (seg, h1)"
      and run: "squash_segments lay native_le
         (fs(out \<mapsto> write_at (contents fs out) (offset ?info) seg))
         mdt_path out le h1 (Suc i) phs = Inr (fs', h')"
      by blast
    let ?c = "write_at (contents fs out) (offset ?info) seg"
    have lseg: "length seg = filesz ?info" using read_segment_data_length [OF rd] .
    then have "seg \<noteq> []" using False by auto
    from write_at_length [OF this, of "contents fs out" "offset ?info"]
    have j1: "j < length ?c" using Cons.prems(2) by simp
    have "j \<notin> segment_region ?info" using Cons.prems(3) by simp
    then have "j < offset ?info \<or> offset ?info + length seg \<le> j"
      unfolding segment_region_def lseg by auto
    from write_at_nth_outside [OF Cons.prems(2) this] have j2: "?c ! j = contents fs out ! j" .
    have c1: "contents (fs(out \<mapsto> ?c)) out = ?c" by simp
    from Cons.IH [OF run, unfolded c1, OF j1 rest] j2 show ?thesis by simp
  qed
qed

lemma squash_Inr:
  assumes "squash native_le gs mdt_path out = Inr gs'"
    and "gs mdt_path = Some D"
  shows "\<exists>format. out \<noteq> mdt_path \<and> detect_elf_format D = Inr format \<and>
     squash_impl (if elf_class format = ELFCLASS32 then Elf32 else Elf64) native_le
       (gs(out \<mapsto> [])) mdt_path out (is_little_endian format) = Inr gs'"
proof -
  have ne: "out \<noteq> mdt_path" using assms(1) squash_same_path by blast
  have ext: "extension mdt_path = ''.mdt''"
    using assms(1) by (auto simp: squash_def split: if_splits)
  have D1: "contents (gs(out \<mapsto> [])) mdt_path = D"
    using assms(2) ne by (simp add: contents_def)
  from assms ext D1 obtain format where f: "detect_elf_format D = Inr format"
    by (cases "detect_elf_format D") (simp_all add: squash_def)
  from squash_eq_impl [of mdt_path gs D out format native_le, OF ext assms(2) ne f] assms(1) ne f
  show ?thesis by auto
qed

lemma squash_header_verbatim:
  assumes "squash native_le gs mdt_path out = Inr gs'"
    and "gs mdt_path = Some D"
    and "elf_parse native_le D = Some (lay, le, ehdr, phdrs)"
  shows "\<exists>gs2 hend.
      take (sizeof_Ehdr lay) (contents gs2 out) = ehdr \<and>
      (\<forall>k<length phdrs.
         take (sizeof_Phdr lay)
           (drop (e_phoff lay native_le ehdr le + k * sizeof_Phdr lay) (contents gs2 out))
         = phdrs ! k) \<and>
      squash_segments lay native_le gs2 mdt_path out le
        (filesz (get_phdr_info lay native_le (hd phdrs) le)) 0 phdrs = Inr (gs', hend) \<and>
      (\<forall>j\<in>header_region lay (e_phoff lay native_le ehdr le) (length phdrs).
         j < length (contents gs2 out) \<and> contents gs2 out ! j = D ! j)"
proof -
  let ?fs = "gs(out \<mapsto> [])"
  from squash_Inr [OF assms(1,2)] obtain format where
    ne: "out \<noteq> mdt_path" and f: "detect_elf_format D = Inr format"
    and impl: "squash_impl (if elf_class format = ELFCLASS32 then Elf32 else Elf64) native_le
       ?fs mdt_path out (is_little_endian format) = Inr gs'"
    by blast
  note p = elf_parse_SomeD [OF assms(3)]
  from p(1) f have lay: "lay = (if elf_class format = ELFCLASS32 then Elf32 else Elf64)"
    and le: "le = is_little_endian format"
    by auto
  have D1: "contents ?fs mdt_path = D"
    using assms(2) ne by (simp add: contents_def)
  have O1: "contents ?fs out = []" by simp
  from squash_impl_Inr [OF impl [folded lay le], unfolded D1] p(2,3) obtain fs1 fs2 hend where
    w1: "write_file_at ?fs out 0 ehdr = Inr fs1"
    and w2: "write_phdr_entries lay fs1 out (e_phoff lay native_le ehdr le) 0 phdrs = Inr fs2"
    and run: "squash_segments lay native_le fs2 mdt_path out le
       (filesz (get_phdr_info lay native_le (hd phdrs) le)) 0 phdrs = Inr (gs', hend)"
    by auto
  from place_headers [OF p(2,3) O1] w1 w2
  have ag: "agrees_on D (contents fs2 out)
      (header_region lay (e_phoff lay native_le ehdr le) (length phdrs))"
    by auto
  note sl = agrees_on_header_slices [OF assms(3) ag, of "[]", simplified]
  have "\<forall>j\<in>header_region lay (e_phoff lay native_le ehdr le) (length phdrs).
         j < length (contents fs2 out) \<and> contents fs2 out ! j = D ! j"
    using ag by (simp add: agrees_on_def)
  with sl run show ?thesis by blast
qed

text \<open>
  Claim C4, as the code has it. Both programs write the header and the program header
  entries they have read back as raw bytes, the header at offset 0 and entry \<open>k\<close> at
  \<open>e_phoff + k * sizeof(ElfPhdr)\<close>. \<open>split\<close> only appends to the mdt afterwards, so its
  output keeps them. \<open>squash\<close> then writes every segment at its \<open>p_offset\<close>: the header
  and table bytes of its output are the raw bytes of the mdt at every position that no
  segment of non-zero size covers, and a segment that lies over the header or the table
  replaces them with the bytes of the segment.
\<close>

theorem header_and_table_replayed_verbatim:
  "(split native_le fs mbn_path mdt_path = Inr fs' \<and> fs mbn_path = Some M \<and>
    elf_parse native_le M = Some (lay, le, ehdr, phdrs) \<longrightarrow>
      take (sizeof_Ehdr lay) (contents fs' mdt_path) = ehdr \<and>
      (\<forall>k<length phdrs.
         take (sizeof_Phdr lay)
           (drop (e_phoff lay native_le ehdr le + k * sizeof_Phdr lay) (contents fs' mdt_path))
         = phdrs ! k)) \<and>
   (squash native_le gs mdt_path out = Inr gs' \<and> gs mdt_path = Some D \<and>
    elf_parse native_le D = Some (lay2, le2, ehdr2, phdrs2) \<longrightarrow>
      (\<exists>gs2 hend.
         take (sizeof_Ehdr lay2) (contents gs2 out) = ehdr2 \<and>
         (\<forall>k<length phdrs2.
            take (sizeof_Phdr lay2)
              (drop (e_phoff lay2 native_le ehdr2 le2 + k * sizeof_Phdr lay2) (contents gs2 out))
            = phdrs2 ! k) \<and>
         squash_segments lay2 native_le gs2 mdt_path out le2
           (filesz (get_phdr_info lay2 native_le (hd phdrs2) le2)) 0 phdrs2 = Inr (gs', hend)) \<and>
      (\<forall>j\<in>header_region lay2 (e_phoff lay2 native_le ehdr2 le2) (length phdrs2).
         j \<notin> (\<Union>ph\<in>set phdrs2. segment_region (get_phdr_info lay2 native_le ph le2)) \<longrightarrow>
         j < length (contents gs' out) \<and> contents gs' out ! j = D ! j))"
proof (intro conjI impI)
  assume a: "split native_le fs mbn_path mdt_path = Inr fs' \<and> fs mbn_path = Some M \<and>
    elf_parse native_le M = Some (lay, le, ehdr, phdrs)"
  then have a1: "split native_le fs mbn_path mdt_path = Inr fs'" and a2: "fs mbn_path = Some M"
    and a3: "elf_parse native_le M = Some (lay, le, ehdr, phdrs)" by simp_all
  show "take (sizeof_Ehdr lay) (contents fs' mdt_path) = ehdr"
    by (rule split_header_verbatim(1) [OF a1 a2 a3])
  show "\<forall>k<length phdrs.
         take (sizeof_Phdr lay)
           (drop (e_phoff lay native_le ehdr le + k * sizeof_Phdr lay) (contents fs' mdt_path))
         = phdrs ! k"
    by (rule split_header_verbatim(2) [OF a1 a2 a3])
next
  assume b: "squash native_le gs mdt_path out = Inr gs' \<and> gs mdt_path = Some D \<and>
    elf_parse native_le D = Some (lay2, le2, ehdr2, phdrs2)"
  then have b1: "squash native_le gs mdt_path out = Inr gs'" and b2: "gs mdt_path = Some D"
    and b3: "elf_parse native_le D = Some (lay2, le2, ehdr2, phdrs2)" by simp_all
  from squash_header_verbatim [OF b1 b2 b3] obtain gs2 hend where
    h: "take (sizeof_Ehdr lay2) (contents gs2 out) = ehdr2"
      "\<forall>k<length phdrs2.
            take (sizeof_Phdr lay2)
              (drop (e_phoff lay2 native_le ehdr2 le2 + k * sizeof_Phdr lay2) (contents gs2 out))
            = phdrs2 ! k"
    and run: "squash_segments lay2 native_le gs2 mdt_path out le2
           (filesz (get_phdr_info lay2 native_le (hd phdrs2) le2)) 0 phdrs2 = Inr (gs', hend)"
    and pos: "\<forall>j\<in>header_region lay2 (e_phoff lay2 native_le ehdr2 le2) (length phdrs2).
         j < length (contents gs2 out) \<and> contents gs2 out ! j = D ! j"
    by blast
  from h run show "\<exists>gs2 hend.
         take (sizeof_Ehdr lay2) (contents gs2 out) = ehdr2 \<and>
         (\<forall>k<length phdrs2.
            take (sizeof_Phdr lay2)
              (drop (e_phoff lay2 native_le ehdr2 le2 + k * sizeof_Phdr lay2) (contents gs2 out))
            = phdrs2 ! k) \<and>
         squash_segments lay2 native_le gs2 mdt_path out le2
           (filesz (get_phdr_info lay2 native_le (hd phdrs2) le2)) 0 phdrs2 = Inr (gs', hend)"
    by blast
  show "\<forall>j\<in>header_region lay2 (e_phoff lay2 native_le ehdr2 le2) (length phdrs2).
         j \<notin> (\<Union>ph\<in>set phdrs2. segment_region (get_phdr_info lay2 native_le ph le2)) \<longrightarrow>
         j < length (contents gs' out) \<and> contents gs' out ! j = D ! j"
  proof (intro ballI impI)
    fix j
    assume j: "j \<in> header_region lay2 (e_phoff lay2 native_le ehdr2 le2) (length phdrs2)"
      and nj: "j \<notin> (\<Union>ph\<in>set phdrs2. segment_region (get_phdr_info lay2 native_le ph le2))"
    from pos j have j2: "j < length (contents gs2 out)" "contents gs2 out ! j = D ! j" by auto
    from squash_segments_untouched [OF run j2(1) nj] j2(2)
    show "j < length (contents gs' out) \<and> contents gs' out ! j = D ! j" by simp
  qed
qed

lemma elf_parse_example_hash_only:
  "elf_parse True example_hash_only =
     Some (Elf32, True, take 52 example_hash_only, [take 32 (drop 52 example_hash_only)])"
  by (simp add: elf_parse_def detect_elf_format_def example_hash_only_def
      elf_consts decode_defs io_defs upt_rec Let_def)

lemma split_example_hash_only:
  "\<exists>fs1. split True [''fw.mbn'' \<mapsto> example_hash_only] ''fw.mbn'' ''fw.mdt'' = Inr fs1"
  by (simp add: run_defs example_hash_only_def bxx_path_fw)

lemma squash_example_hash_only:
  "\<exists>gs'. squash True [''fw.mdt'' \<mapsto> example_hash_only] ''fw.mdt'' ''out.mbn'' = Inr gs'"
  by (simp add: run_defs example_hash_only_def bxx_path_fw)

theorem header_and_table_replayed_verbatim_witness:
  "\<exists>fs1 gs'.
     split True [''fw.mbn'' \<mapsto> example_hash_only] ''fw.mbn'' ''fw.mdt'' = Inr fs1 \<and>
     take 52 (contents fs1 ''fw.mdt'') = take 52 example_hash_only \<and>
     take 32 (drop 52 (contents fs1 ''fw.mdt'')) = take 32 (drop 52 example_hash_only) \<and>
     squash True [''fw.mdt'' \<mapsto> example_hash_only] ''fw.mdt'' ''out.mbn'' = Inr gs' \<and>
     24 < length (contents gs' ''out.mbn'') \<and>
     contents gs' ''out.mbn'' ! 24 = example_hash_only ! 24"
proof -
  let ?phdrs = "[take 32 (drop 52 example_hash_only)]"
  from split_example_hash_only obtain fs1 where
    s: "split True [''fw.mbn'' \<mapsto> example_hash_only] ''fw.mbn'' ''fw.mdt'' = Inr fs1" by blast
  from squash_example_hash_only obtain gs' where
    q: "squash True [''fw.mdt'' \<mapsto> example_hash_only] ''fw.mdt'' ''out.mbn'' = Inr gs'" by blast
  note t = header_and_table_replayed_verbatim
    [of True "[''fw.mbn'' \<mapsto> example_hash_only]" "''fw.mbn''" "''fw.mdt''" fs1 example_hash_only
        Elf32 True "take 52 example_hash_only" ?phdrs
        "[''fw.mdt'' \<mapsto> example_hash_only]" "''out.mbn''" gs' example_hash_only
        Elf32 True "take 52 example_hash_only" ?phdrs]
  have phoff: "e_phoff Elf32 True (take 52 example_hash_only) True = 52"
    by (simp add: example_hash_only_def decode_defs)
  have info: "get_phdr_info Elf32 True (take 32 (drop 52 example_hash_only)) True =
      \<lparr>offset = 84, filesz = 4, flags = 0x02000000\<rparr>"
    by (simp add: example_hash_only_def decode_defs)
  from t s elf_parse_example_hash_only
  have t1: "take (sizeof_Ehdr Elf32) (contents fs1 ''fw.mdt'') = take 52 example_hash_only"
    and t2: "\<forall>k<length ?phdrs.
         take (sizeof_Phdr Elf32)
           (drop (e_phoff Elf32 True (take 52 example_hash_only) True + k * sizeof_Phdr Elf32)
              (contents fs1 ''fw.mdt''))
         = ?phdrs ! k"
    by simp_all
  from t q elf_parse_example_hash_only
  have t3: "\<forall>j\<in>header_region Elf32 (e_phoff Elf32 True (take 52 example_hash_only) True)
             (length ?phdrs).
         j \<notin> (\<Union>ph\<in>set ?phdrs. segment_region (get_phdr_info Elf32 True ph True)) \<longrightarrow>
         j < length (contents gs' ''out.mbn'') \<and>
         contents gs' ''out.mbn'' ! j = example_hash_only ! j"
    by simp
  have "take 52 (contents fs1 ''fw.mdt'') = take 52 example_hash_only"
    using t1 by simp
  moreover have "take 32 (drop 52 (contents fs1 ''fw.mdt'')) = take 32 (drop 52 example_hash_only)"
    using t2 [rule_format, of 0] unfolding phoff by simp
  moreover have "24 < length (contents gs' ''out.mbn'') \<and>
     contents gs' ''out.mbn'' ! 24 = example_hash_only ! 24"
  proof (rule t3 [rule_format])
    show "24 \<in> header_region Elf32 (e_phoff Elf32 True (take 52 example_hash_only) True)
             (length ?phdrs)"
      by (simp add: header_region_def)
    show "24 \<notin> (\<Union>ph\<in>set ?phdrs. segment_region (get_phdr_info Elf32 True ph True))"
      by (simp add: info segment_region_def del: get_phdr_info.simps)
  qed
  ultimately show ?thesis using s q by blast
qed

text \<open>
  The claim as stated fails for \<open>squash\<close> when a segment lies over the header, as segment 0
  of a PIL image does. Here the mdt and \<open>fw.b00\<close> differ in byte 24 (in \<open>e_entry\<close>, a
  field the decoder does not interpret): the header region of the output is that of
  \<open>fw.b00\<close>, not the header read from the mdt.
\<close>

theorem squash_header_overwritten_by_segment:
  "read_elf_header Elf32 example_header_segment = Inr (take 52 example_header_segment) \<and>
   (\<exists>gs'. squash True
            [''fw.mdt'' \<mapsto> example_header_segment,
             ''fw.b00'' \<mapsto> example_header_segment[24 := 0x99]]
            ''fw.mdt'' ''out.mbn'' = Inr gs' \<and>
          take 52 (contents gs' ''out.mbn'') = take 52 (example_header_segment[24 := 0x99]) \<and>
          take 52 (contents gs' ''out.mbn'') \<noteq> take 52 example_header_segment)"
  by (simp add: run_defs example_header_segment_def bxx_path_fw)

end
